theory Spec2Isabelle
  imports Main "HOL-Library.Word" "HOL-Library.Sublist"
begin

section \<open>Strings, cell values and identifiers\<close>

text \<open>
  A JavaScript string is a sequence of UTF-16 code units. Literals of the source are
  written as HOL strings and converted with \<open>str\<close>.
\<close>

type_synonym jsstring = "16 word list"

definition str :: "string \<Rightarrow> jsstring" where
  "str s = map (\<lambda>c. of_nat (of_char c)) s"

definition colon :: "16 word" where
  "colon = 58"

text \<open>
  \<open>String.prototype.trim\<close> removes the code units of WhiteSpace and LineTerminator
  from both ends.
\<close>

definition isWhiteSpace :: "16 word \<Rightarrow> bool" where
  "isWhiteSpace c \<longleftrightarrow>
     c = 0x9 \<or> c = 0xA \<or> c = 0xB \<or> c = 0xC \<or> c = 0xD \<or> c = 0x20 \<or> c = 0xA0 \<or>
     c = 0x1680 \<or> (0x2000 \<le> c \<and> c \<le> 0x200A) \<or> c = 0x2028 \<or> c = 0x2029 \<or>
     c = 0x202F \<or> c = 0x205F \<or> c = 0x3000 \<or> c = 0xFEFF"

definition trim :: "jsstring \<Rightarrow> jsstring" where
  "trim s = rev (dropWhile isWhiteSpace (rev (dropWhile isWhiteSpace s)))"

text \<open>
  The value of a cell of a row object, as \<open>XLSX.utils.sheet_to_json\<close> delivers it:
  a missing property reads as \<open>undefined\<close>. A numeric cell is kept as an integer, since
  the program only looks at whether it is zero.
\<close>

datatype jsval = Undefined | Str jsstring | Num int | Bool bool | DateObj int

fun truthy :: "jsval \<Rightarrow> bool" where
  "truthy Undefined = False"
| "truthy (Str s) = (s \<noteq> [])"
| "truthy (Num n) = (n \<noteq> 0)"
| "truthy (Bool b) = b"
| "truthy (DateObj d) = True"

text \<open>The operator \<open>a || b\<close>.\<close>

definition orElse :: "jsval \<Rightarrow> jsval \<Rightarrow> jsval" where
  "orElse a b = (if truthy a then a else b)"

type_synonym row = "jsstring \<Rightarrow> jsval"

definition hierarchyLevels :: "jsstring list" where
  "hierarchyLevels =
     [str ''L1 - Line of Business'',
      str ''L2 - Process Group'',
      str ''L3 - Scope Item'',
      str ''L4 - Process Variant'',
      str ''L5 - Process Step'']"

text \<open>
  \<open>crypto.randomBytes\<close> is modelled by a stream of bytes; the \<open>k\<close>-th call of
  \<open>generateObjectId\<close> reads the bytes \<open>12 * k, ..., 12 * k + 11\<close> of it and prints
  them as 24 lower-case hexadecimal digits.
\<close>

type_synonym entropy = "nat \<Rightarrow> 8 word"

definition hexDigit :: "nat \<Rightarrow> 16 word" where
  "hexDigit d = (if d < 10 then of_nat (48 + d) else of_nat (87 + d))"

definition toHex :: "8 word list \<Rightarrow> jsstring" where
  "toHex bs = concat (map (\<lambda>b. [hexDigit (unat b div 16), hexDigit (unat b mod 16)]) bs)"

definition randomBytes :: "entropy \<Rightarrow> nat \<Rightarrow> nat \<Rightarrow> 8 word list" where
  "randomBytes ent pos n = map ent [pos ..< pos + n]"

definition generateObjectId :: "entropy \<Rightarrow> nat \<Rightarrow> jsstring" where
  "generateObjectId ent k = toHex (randomBytes ent (12 * k) 12)"

section \<open>Nodes and the state of the build\<close>

record node =
  node_id :: jsstring
  title :: jsstring
  node_parent :: jsstring
  node_child :: "jsstring list"
  levelFields :: "(jsstring \<times> jsstring) list"
  ID :: jsval
  Business_Role :: jsval
  Fiori_app_UX_recommendations :: jsval
  Insights_Indicative :: jsval
  Business_stakeholders :: jsval
  Materiality :: jsval
  Description :: jsval

text \<open>
  \<open>outputNodes\<close> holds the node objects in the order they were pushed; a node object
  is referred to by its position there, so \<open>nodeMap\<close> maps an id to a position and a
  push to \<open>parentNode._child\<close> updates the list at that position. \<open>generated\<close> counts
  the calls of \<open>generateObjectId\<close>.
\<close>

record state =
  outputNodes :: "node list"
  idMap :: "jsstring \<rightharpoonup> jsstring"
  nodeMap :: "jsstring \<rightharpoonup> nat"
  generated :: nat

definition initialState :: state where
  "initialState = \<lparr>outputNodes = [], idMap = Map.empty, nodeMap = Map.empty, generated = 0\<rparr>"

datatype error = TypeError

text \<open>\<open>previousLevelId\<close> is \<open>null\<close> (\<open>None\<close>) or a string; a string is truthy when it is not empty.\<close>

definition truthyId :: "jsstring option \<Rightarrow> bool" where
  "truthyId p = (case p of None \<Rightarrow> False | Some s \<Rightarrow> s \<noteq> [])"

definition compositeKey :: "jsstring \<Rightarrow> jsstring \<Rightarrow> jsstring option \<Rightarrow> jsstring" where
  "compositeKey level value previousLevelId =
     (if truthyId previousLevelId
      then level @ colon # value @ colon # the previousLevelId
      else level @ colon # value)"

definition newNode :: "jsstring \<Rightarrow> jsstring \<Rightarrow> jsstring option \<Rightarrow> jsstring \<Rightarrow> row \<Rightarrow> node" where
  "newNode nodeId value previousLevelId level row =
     \<lparr>node_id = nodeId,
      title = value,
      node_parent = (if truthyId previousLevelId then the previousLevelId else []),
      node_child = [],
      levelFields = map (\<lambda>l. (l, if l = level then value else [])) hierarchyLevels,
      ID = orElse (row (str ''ID'')) (Str []),
      Business_Role = orElse (row (str ''Business Role'')) (Str []),
      Fiori_app_UX_recommendations = orElse (row (str ''Fiori app UX recommendations'')) (Str []),
      Insights_Indicative = orElse (row (str ''Insights (Indicative)'')) (Str []),
      Business_stakeholders = orElse (row (str ''Business stakeholders'')) (Str []),
      Materiality = orElse (row (str ''Materiality'')) (Num 0),
      Description = orElse (row (str ''Description'')) (Str [])\<rparr>"

text \<open>Lines 102 to 107: the new node is added to its parent's \<open>_child\<close>.\<close>

definition linkChild :: "jsstring option \<Rightarrow> jsstring \<Rightarrow> (jsstring \<rightharpoonup> nat) \<Rightarrow> node list \<Rightarrow> node list" where
  "linkChild previousLevelId nodeId nmap out =
     (if truthyId previousLevelId then
        (case nmap (the previousLevelId) of
           None \<Rightarrow> out
         | Some i \<Rightarrow>
             if nodeId \<notin> set (node_child (out ! i))
             then out[i := (out ! i)\<lparr>node_child := node_child (out ! i) @ [nodeId]\<rparr>]
             else out)
      else out)"

text \<open>Lines 73 to 107: the body of \<open>if (!idMap.has(compositeKey))\<close>.\<close>

definition createNode ::
  "entropy \<Rightarrow> row \<Rightarrow> jsstring \<Rightarrow> jsstring \<Rightarrow> jsstring option \<Rightarrow> jsstring \<Rightarrow> state \<Rightarrow> state" where
  "createNode ent row level value previousLevelId key st =
     (let nodeId = generateObjectId ent (generated st);
          nd = newNode nodeId value previousLevelId level row;
          out = outputNodes st @ [nd];
          nmap = (nodeMap st)(nodeId \<mapsto> length (outputNodes st))
      in \<lparr>outputNodes = linkChild previousLevelId nodeId nmap out,
          idMap = (idMap st)(key \<mapsto> nodeId),
          nodeMap = nmap,
          generated = Suc (generated st)\<rparr>)"

text \<open>
  Lines 58 to 112: one call of the inner callback. Calling \<open>trim\<close> on a truthy value
  that is not a string throws a TypeError, which ends the whole build.
\<close>

definition processLevel ::
  "entropy \<Rightarrow> row \<Rightarrow> jsstring \<Rightarrow> state \<times> jsstring option \<Rightarrow> error + state \<times> jsstring option" where
  "processLevel ent row level sp =
     (case sp of (st, previousLevelId) \<Rightarrow>
        if \<not> truthy (row level) then Inr (st, previousLevelId)
        else (case row level of
                Str s \<Rightarrow>
                  if trim s = [] then Inr (st, previousLevelId)
                  else
                    let value = trim s;
                        key = compositeKey level value previousLevelId;
                        st' = (if idMap st key = None
                               then createNode ent row level value previousLevelId key st
                               else st)
                    in Inr (st', idMap st' key)
              | _ \<Rightarrow> Inl TypeError))"

text \<open>\<open>hierarchyLevels.forEach\<close>, with \<open>previousLevelId\<close> carried along.\<close>

fun processLevels ::
  "entropy \<Rightarrow> row \<Rightarrow> jsstring list \<Rightarrow> state \<times> jsstring option \<Rightarrow> error + state \<times> jsstring option" where
  "processLevels ent row [] sp = Inr sp"
| "processLevels ent row (level # levels) sp =
     (case processLevel ent row level sp of
        Inl e \<Rightarrow> Inl e
      | Inr sp' \<Rightarrow> processLevels ent row levels sp')"

text \<open>Lines 54 to 113: one call of the outer callback.\<close>

definition processRow :: "entropy \<Rightarrow> row \<Rightarrow> state \<Rightarrow> error + state" where
  "processRow ent row st =
     (case processLevels ent row hierarchyLevels (st, None) of
        Inl e \<Rightarrow> Inl e
      | Inr (st', previousLevelId) \<Rightarrow> Inr st')"

fun processRows :: "entropy \<Rightarrow> row list \<Rightarrow> state \<Rightarrow> error + state" where
  "processRows ent [] st = Inr st"
| "processRows ent (row # rows) st =
     (case processRow ent row st of
        Inl e \<Rightarrow> Inl e
      | Inr st' \<Rightarrow> processRows ent rows st')"

text \<open>
  The build of \<open>processExcelToTreeJSON\<close>, from the parsed rows \<open>rawData\<close> to the
  returned \<open>outputNodes\<close>.
\<close>

definition processExcelToTreeJSON :: "entropy \<Rightarrow> row list \<Rightarrow> error + node list" where
  "processExcelToTreeJSON ent rawData =
     (case processRows ent rawData initialState of
        Inl e \<Rightarrow> Inl e
      | Inr st \<Rightarrow> Inr (outputNodes st))"

text \<open>A row object given by its properties.\<close>

definition rowOf :: "(string \<times> jsval) list \<Rightarrow> row" where
  "rowOf ps = (\<lambda>k. case map_of (map (\<lambda>(n, v). (str n, v)) ps) k of None \<Rightarrow> Undefined | Some v \<Rightarrow> v)"

definition countingEntropy :: entropy where
  "countingEntropy = (\<lambda>i. of_nat i)"

section \<open>Notions used in the statements\<close>

subsection \<open>Cells\<close>

text \<open>
  A level cell is \<open>populated\<close> when the inner callback goes past its first test: the cell
  is a string that is not empty after trimming. It is \<open>absentOrEmpty\<close> when it is missing
  or a string that trims to the empty string. On a cell that \<open>throws\<close>, a truthy value
  that is no string, the call of \<open>trim\<close> fails.
\<close>

definition populated :: "jsval \<Rightarrow> bool" where
  "populated v = (case v of Str s \<Rightarrow> trim s \<noteq> [] | _ \<Rightarrow> False)"

definition absentOrEmpty :: "jsval \<Rightarrow> bool" where
  "absentOrEmpty v = (case v of Undefined \<Rightarrow> True | Str s \<Rightarrow> trim s = [] | _ \<Rightarrow> False)"

definition textOrAbsent :: "jsval \<Rightarrow> bool" where
  "textOrAbsent v = (case v of Undefined \<Rightarrow> True | Str s \<Rightarrow> True | _ \<Rightarrow> False)"

definition numberOrAbsent :: "jsval \<Rightarrow> bool" where
  "numberOrAbsent v = (case v of Undefined \<Rightarrow> True | Num n \<Rightarrow> True | _ \<Rightarrow> False)"

definition throws :: "jsval \<Rightarrow> bool" where
  "throws v = (case v of Str s \<Rightarrow> False | _ \<Rightarrow> truthy v)"

subsection \<open>Reading a node\<close>

text \<open>
  The level of a node is found as the report at the end of the program finds it (lines
  185 and 186): the first level whose field of the node is not the empty string. The rank
  of a level is its position in \<open>hierarchyLevels\<close>, counted from 1.
\<close>

definition nodeLevel :: "node \<Rightarrow> jsstring option" where
  "nodeLevel n = find (\<lambda>level. map_of (levelFields n) level \<noteq> Some []) hierarchyLevels"

definition levelRank :: "jsstring \<Rightarrow> nat" where
  "levelRank level = Suc (length (takeWhile (\<lambda>l. l \<noteq> level) hierarchyLevels))"

definition nodeRank :: "node \<Rightarrow> nat option" where
  "nodeRank n = map_option levelRank (nodeLevel n)"

text \<open>
  The deduplication key \<open>(level, title, parent id or none)\<close> of a node, read back from
  its fields, and the text \<open>keyOf\<close> under which \<open>idMap\<close> holds the node.
\<close>

type_synonym dedupKey = "jsstring \<times> jsstring \<times> jsstring option"

definition parentOf :: "node \<Rightarrow> jsstring option" where
  "parentOf n = (if node_parent n = [] then None else Some (node_parent n))"

definition nodeKey :: "node \<Rightarrow> dedupKey" where
  "nodeKey n = (case nodeLevel n of None \<Rightarrow> [] | Some level \<Rightarrow> level, title n, parentOf n)"

definition keyOf :: "node \<Rightarrow> jsstring" where
  "keyOf n = (case nodeLevel n of None \<Rightarrow> [] | Some level \<Rightarrow> compositeKey level (title n) (parentOf n))"

text \<open>The metadata fields of a node, and what lines 85 to 91 read from a row for them.\<close>

definition metadata :: "node \<Rightarrow> jsval list" where
  "metadata n =
     [ID n, Business_Role n, Fiori_app_UX_recommendations n, Insights_Indicative n,
      Business_stakeholders n, Materiality n, Description n]"

definition rowMetadata :: "row \<Rightarrow> jsval list" where
  "rowMetadata row =
     [orElse (row (str ''ID'')) (Str []),
      orElse (row (str ''Business Role'')) (Str []),
      orElse (row (str ''Fiori app UX recommendations'')) (Str []),
      orElse (row (str ''Insights (Indicative)'')) (Str []),
      orElse (row (str ''Business stakeholders'')) (Str []),
      orElse (row (str ''Materiality'')) (Num 0),
      orElse (row (str ''Description'')) (Str [])]"

text \<open>The ids of the nodes of \<open>out\<close> whose parent id is \<open>p\<close>, in the order of \<open>out\<close>.\<close>

definition childrenOf :: "jsstring \<Rightarrow> node list \<Rightarrow> jsstring list" where
  "childrenOf p out = map node_id (filter (\<lambda>m. node_parent m = p) out)"

text \<open>The levels before \<open>level\<close> for which the row has a value, in order.\<close>

definition lowerPopulated :: "row \<Rightarrow> jsstring \<Rightarrow> jsstring list" where
  "lowerPopulated row level =
     filter (\<lambda>l. populated (row l)) (takeWhile (\<lambda>l. l \<noteq> level) hierarchyLevels)"

subsection \<open>How the output changes\<close>

text \<open>
  A step of the build appends nodes to \<open>outputNodes\<close> and appends ids to the \<open>_child\<close>
  of nodes that are there; \<open>grows\<close> says this of two outputs.
\<close>

definition sameButChild :: "node \<Rightarrow> node \<Rightarrow> bool" where
  "sameButChild n m \<longleftrightarrow> m = n\<lparr>node_child := node_child m\<rparr>"

definition grows :: "node list \<Rightarrow> node list \<Rightarrow> bool" where
  "grows out out' \<longleftrightarrow>
     length out \<le> length out' \<and>
     (\<forall>i<length out. sameButChild (out ! i) (out' ! i) \<and>
        prefix (node_child (out ! i)) (node_child (out' ! i)))"

subsection \<open>The keys that a build meets\<close>

text \<open>
  \<open>visits\<close> lists, in the order of the scan (rows from first to last, levels in the
  order of \<open>hierarchyLevels\<close>), each populated level of each row with its deduplication
  key and the id that \<open>previousLevelId\<close> is set to there.
\<close>

fun levelVisits ::
  "entropy \<Rightarrow> row \<Rightarrow> jsstring list \<Rightarrow> state \<times> jsstring option \<Rightarrow> (dedupKey \<times> jsstring option) list" where
  "levelVisits ent row [] sp = []"
| "levelVisits ent row (level # levels) sp =
     (case processLevel ent row level sp of
        Inl e \<Rightarrow> []
      | Inr sp' \<Rightarrow>
          (case row level of
             Str s \<Rightarrow> if trim s = [] then [] else [((level, trim s, snd sp), snd sp')]
           | _ \<Rightarrow> []) @ levelVisits ent row levels sp')"

fun visits :: "entropy \<Rightarrow> row list \<Rightarrow> state \<Rightarrow> (dedupKey \<times> jsstring option) list" where
  "visits ent [] st = []"
| "visits ent (row # rows) st =
     (case processRow ent row st of
        Inl e \<Rightarrow> []
      | Inr st' \<Rightarrow> levelVisits ent row hierarchyLevels (st, None) @ visits ent rows st')"

text \<open>The text under which the program looks a deduplication key up in \<open>idMap\<close>.\<close>

definition keyText :: "dedupKey \<Rightarrow> jsstring" where
  "keyText k = (case k of (level, value, previousLevelId) \<Rightarrow> compositeKey level value previousLevelId)"

text \<open>The elements of a list in the order in which each is seen for the first time.\<close>

fun firstSeen :: "'a list \<Rightarrow> 'a list \<Rightarrow> 'a list" where
  "firstSeen seen [] = seen"
| "firstSeen seen (x # xs) = firstSeen (if x \<in> set seen then seen else seen @ [x]) xs"

text \<open>
  The elements of a list at which a value of \<open>f\<close> is seen for the first time. With \<open>keyText\<close>
  for \<open>f\<close>, these are the visits at which the lookup in \<open>idMap\<close> (line 72) finds nothing.
\<close>

fun firstSeenBy :: "('a \<Rightarrow> 'b) \<Rightarrow> 'a list \<Rightarrow> 'a list \<Rightarrow> 'a list" where
  "firstSeenBy f seen [] = seen"
| "firstSeenBy f seen (x # xs) =
     firstSeenBy f (if f x \<in> f ` set seen then seen else seen @ [x]) xs"

subsection \<open>What is assumed of the generated ids\<close>

text \<open>
  \<open>crypto.randomBytes\<close> may give the same twelve bytes twice, so that the ids of an
  output are pairwise distinct is a hypothesis where it is needed. The composite key is
  the text \<open>level:value\<close> or \<open>level:value:parentId\<close>; a value that ends in a colon
  followed by a generated id makes two different keys the same text (\<open>collRows\<close> below),
  and \<open>titlesAvoidIds\<close> says that no level value of the input does. It is a hypothesis
  only of the lemmas that describe the build away from such a collision.
\<close>

definition avoidsIds :: "jsstring set \<Rightarrow> jsstring \<Rightarrow> bool" where
  "avoidsIds I t \<longleftrightarrow> (\<forall>q\<in>I. \<not> suffix (colon # q) t)"

definition cellAvoidsIds :: "jsstring set \<Rightarrow> jsval \<Rightarrow> bool" where
  "cellAvoidsIds I v = (case v of Str s \<Rightarrow> avoidsIds I (trim s) | _ \<Rightarrow> True)"

definition titlesAvoidIds :: "row list \<Rightarrow> node list \<Rightarrow> bool" where
  "titlesAvoidIds rows out \<longleftrightarrow>
     (\<forall>row\<in>set rows. \<forall>level\<in>set hierarchyLevels. cellAvoidsIds (node_id ` set out) (row level))"

definition okParent :: "jsstring set \<Rightarrow> jsstring option \<Rightarrow> bool" where
  "okParent I p = (case p of None \<Rightarrow> True | Some q \<Rightarrow> q \<in> I \<and> length q = 24)"

subsection \<open>Invariants of the build\<close>

text \<open>
  \<open>invIds\<close>: the node at position \<open>i\<close> has the \<open>i\<close>-th generated id. \<open>invKeys\<close>:
  \<open>idMap\<close> holds each node under its key text, and these texts are pairwise distinct.
  \<open>parentsPrecede\<close>: a non-empty parent id is the id of an earlier node. \<open>prevOK\<close>:
  \<open>previousLevelId\<close> is \<open>null\<close> or the id of a node. \<open>invChildren\<close>: the child lists and
  \<open>nodeMap\<close> are right when the ids are distinct.
\<close>

definition invIds :: "entropy \<Rightarrow> state \<Rightarrow> bool" where
  "invIds ent st \<longleftrightarrow>
     generated st = length (outputNodes st) \<and>
     map node_id (outputNodes st) = map (generateObjectId ent) [0 ..< length (outputNodes st)]"

definition invKeys :: "state \<Rightarrow> bool" where
  "invKeys st \<longleftrightarrow>
     idMap st = map_of (map (\<lambda>n. (keyOf n, node_id n)) (outputNodes st)) \<and>
     distinct (map keyOf (outputNodes st))"

definition wfNode :: "node \<Rightarrow> bool" where
  "wfNode n \<longleftrightarrow> (\<exists>level\<in>set hierarchyLevels. nodeLevel n = Some level) \<and> title n \<noteq> []"

definition parentsPrecede :: "node list \<Rightarrow> bool" where
  "parentsPrecede out \<longleftrightarrow>
     (\<forall>i<length out. node_parent (out ! i) \<noteq> [] \<longrightarrow>
        node_parent (out ! i) \<in> set (take i (map node_id out)))"

definition inv :: "entropy \<Rightarrow> state \<Rightarrow> bool" where
  "inv ent st \<longleftrightarrow>
     invIds ent st \<and> invKeys st \<and> (\<forall>n\<in>set (outputNodes st). wfNode n) \<and>
     parentsPrecede (outputNodes st)"

definition prevOK :: "state \<Rightarrow> jsstring option \<Rightarrow> bool" where
  "prevOK st previousLevelId \<longleftrightarrow>
     (case previousLevelId of None \<Rightarrow> True | Some p \<Rightarrow> p \<in> node_id ` set (outputNodes st))"

definition invChildren :: "state \<Rightarrow> bool" where
  "invChildren st \<longleftrightarrow>
     (\<forall>i<length (outputNodes st).
        node_child (outputNodes st ! i) = childrenOf (node_id (outputNodes st ! i)) (outputNodes st) \<and>
        nodeMap st (node_id (outputNodes st ! i)) = Some i)"

text \<open>
  \<open>prevRel\<close>: what \<open>previousLevelId\<close> is after the levels \<open>ls\<close> of a row had a value;
  \<open>origin\<close>: how the node at position \<open>i\<close> relates to the row that created it. \<open>W\<close> is
  the list of the visits of that row: the parent of a node is the node that the row
  itself reached at the populated level before.
\<close>

definition cellText :: "jsval \<Rightarrow> jsstring" where
  "cellText v = (case v of Str s \<Rightarrow> trim s | _ \<Rightarrow> [])"

definition prevRel ::
  "(dedupKey \<times> jsstring option) list \<Rightarrow> row \<Rightarrow> node list \<Rightarrow> jsstring option \<Rightarrow> jsstring list \<Rightarrow> bool" where
  "prevRel W row out previousLevelId ls \<longleftrightarrow>
     (if ls = [] then previousLevelId = None
      else \<exists>j<length out. previousLevelId = Some (node_id (out ! j)) \<and>
             nodeLevel (out ! j) = Some (last ls) \<and>
             (\<exists>p. keyOf (out ! j) = compositeKey (last ls) (cellText (row (last ls))) p \<and>
                  ((last ls, cellText (row (last ls)), p), previousLevelId) \<in> set W))"

definition parentRel ::
  "(dedupKey \<times> jsstring option) list \<Rightarrow> row \<Rightarrow> node list \<Rightarrow> nat \<Rightarrow> jsstring list \<Rightarrow> bool" where
  "parentRel W row out i ls \<longleftrightarrow>
     (if ls = [] then node_parent (out ! i) = []
      else node_parent (out ! i) \<noteq> [] \<and>
           (\<exists>j<i. node_id (out ! j) = node_parent (out ! i) \<and> nodeLevel (out ! j) = Some (last ls) \<and>
              (\<exists>p. keyOf (out ! j) = compositeKey (last ls) (cellText (row (last ls))) p \<and>
                   ((last ls, cellText (row (last ls)), p), Some (node_parent (out ! i))) \<in> set W)))"

definition origin :: "(dedupKey \<times> jsstring option) list \<Rightarrow> row \<Rightarrow> node list \<Rightarrow> nat \<Rightarrow> bool" where
  "origin W row out i \<longleftrightarrow>
     (\<exists>level\<in>set hierarchyLevels.
        nodeLevel (out ! i) = Some level \<and> populated (row level) \<and>
        title (out ! i) = cellText (row level) \<and>
        ((level, title (out ! i), parentOf (out ! i)), Some (node_id (out ! i))) \<in> set W \<and>
        parentRel W row out i (lowerPopulated row level))"

subsection \<open>The build on positions\<close>

text \<open>
  The output of a build with positions in place of ids: \<open>absNode\<close> describes a node by
  its level, title, the position of its parent, its level fields and its metadata, and
  \<open>absRows\<close> is the build on such descriptions, which uses no generated id.
\<close>

definition indexOf :: "'a \<Rightarrow> 'a list \<Rightarrow> nat" where
  "indexOf x xs = length (takeWhile (\<lambda>y. y \<noteq> x) xs)"

type_synonym absKey = "jsstring option \<times> jsstring \<times> nat option"

type_synonym absNode = "absKey \<times> (jsstring \<times> jsstring) list \<times> jsval list"

definition absNode :: "node list \<Rightarrow> node \<Rightarrow> absNode" where
  "absNode out n =
     ((nodeLevel n, title n, map_option (\<lambda>p. indexOf p (map node_id out)) (parentOf n)),
      levelFields n, metadata n)"

definition absPrev :: "node list \<Rightarrow> jsstring option \<Rightarrow> nat option" where
  "absPrev out previousLevelId = map_option (\<lambda>p. indexOf p (map node_id out)) previousLevelId"

definition absLevel :: "row \<Rightarrow> jsstring \<Rightarrow> absNode list \<times> nat option \<Rightarrow> absNode list \<times> nat option" where
  "absLevel row level a =
     (case a of (ns, ap) \<Rightarrow>
        (case row level of
           Str s \<Rightarrow>
             if trim s = [] then (ns, ap)
             else
               let k = (Some level, trim s, ap)
               in if k \<in> set (map fst ns) then (ns, Some (indexOf k (map fst ns)))
                  else (ns @ [(k, map (\<lambda>l. (l, if l = level then trim s else [])) hierarchyLevels,
                               rowMetadata row)],
                        Some (length ns))
         | _ \<Rightarrow> (ns, ap)))"

fun absLevels :: "row \<Rightarrow> jsstring list \<Rightarrow> absNode list \<times> nat option \<Rightarrow> absNode list \<times> nat option" where
  "absLevels row [] a = a"
| "absLevels row (level # levels) a = absLevels row levels (absLevel row level a)"

fun absRows :: "row list \<Rightarrow> absNode list \<Rightarrow> absNode list" where
  "absRows [] ns = ns"
| "absRows (row # rows) ns = absRows rows (fst (absLevels row hierarchyLevels (ns, None)))"

text \<open>
  Renaming the ids of a node, and the renaming that takes the ids of one output to the
  ids at the same positions of another.
\<close>

definition renameNode :: "(jsstring \<Rightarrow> jsstring) \<Rightarrow> node \<Rightarrow> node" where
  "renameNode f n =
     n\<lparr>node_id := f (node_id n),
       node_parent := (if node_parent n = [] then [] else f (node_parent n)),
       node_child := map f (node_child n)\<rparr>"

definition renaming :: "node list \<Rightarrow> node list \<Rightarrow> jsstring \<Rightarrow> jsstring" where
  "renaming out1 out2 x = map node_id out2 ! indexOf x (map node_id out1)"

subsection \<open>Example rows and their outputs\<close>

text \<open>
  The rows of the examples, two byte streams for the ids, and the nodes that the build
  gives for the rows: \<open>gapOutput\<close> for \<open>[gapRow]\<close> with the ids of \<open>countingEntropy\<close>,
  \<open>gapOutput2\<close> for the same row with those of \<open>descendingEntropy\<close>, \<open>descOutput\<close> for
  \<open>descRow\<close> and \<open>orphanOutput\<close> for \<open>[orphanRow]\<close>.
\<close>

definition gapRow :: row where
  "gapRow = rowOf [(''L1 - Line of Business'', Str (str ''A'')), (''L3 - Scope Item'', Str (str ''Z''))]"

definition emptyRow :: row where
  "emptyRow = rowOf [(''ID'', Str (str ''7'')), (''L2 - Process Group'', Str (str '' ''))]"

definition descRow :: "jsstring \<Rightarrow> row" where
  "descRow d = rowOf [(''L1 - Line of Business'', Str (str ''A'')), (''Description'', Str d)]"

definition rowA :: row where
  "rowA = rowOf [(''L1 - Line of Business'', Str (str ''A''))]"

definition orphanRow :: row where
  "orphanRow = rowOf [(''L2 - Process Group'', Str (str ''X''))]"

definition descendingEntropy :: entropy where
  "descendingEntropy = (\<lambda>i. of_nat (255 - i))"

definition plainNode :: "string \<Rightarrow> string \<Rightarrow> string \<Rightarrow> string list \<Rightarrow> string \<Rightarrow> node" where
  "plainNode nid t p cs level =
     \<lparr>node_id = str nid, title = str t, node_parent = str p, node_child = map str cs,
      levelFields = map (\<lambda>l. (l, if l = str level then str t else [])) hierarchyLevels,
      ID = Str [], Business_Role = Str [], Fiori_app_UX_recommendations = Str [],
      Insights_Indicative = Str [], Business_stakeholders = Str [], Materiality = Num 0,
      Description = Str []\<rparr>"

definition gapOutput :: "node list" where
  "gapOutput =
     [plainNode ''000102030405060708090a0b'' ''A'' [] [''0c0d0e0f1011121314151617'']
        ''L1 - Line of Business'',
      plainNode ''0c0d0e0f1011121314151617'' ''Z'' ''000102030405060708090a0b'' []
        ''L3 - Scope Item'']"

definition gapOutput2 :: "node list" where
  "gapOutput2 =
     [plainNode ''fffefdfcfbfaf9f8f7f6f5f4'' ''A'' [] [''f3f2f1f0efeeedecebeae9e8'']
        ''L1 - Line of Business'',
      plainNode ''f3f2f1f0efeeedecebeae9e8'' ''Z'' ''fffefdfcfbfaf9f8f7f6f5f4'' []
        ''L3 - Scope Item'']"

definition descOutput :: "node list" where
  "descOutput =
     [(plainNode ''000102030405060708090a0b'' ''A'' [] [] ''L1 - Line of Business'')
        \<lparr>Description := Str (str ''first'')\<rparr>]"

definition orphanOutput :: "node list" where
  "orphanOutput = [plainNode ''000102030405060708090a0b'' ''X'' [] [] ''L2 - Process Group'']"

text \<open>
  Two rows whose second has, at L2 and without parent, the value \<open>A:\<close> followed by the id
  that \<open>countingEntropy\<close> gives to the node "P" of the first row; \<open>collOutput\<close> is the
  output of the build for them with the ids of \<open>countingEntropy\<close>, \<open>collOutput2\<close> with
  those of \<open>descendingEntropy\<close>.
\<close>

definition collRows :: "row list" where
  "collRows =
     [rowOf [(''L1 - Line of Business'', Str (str ''P'')), (''L2 - Process Group'', Str (str ''A''))],
      rowOf [(''L2 - Process Group'', Str (str ''A:000102030405060708090a0b'')),
             (''L3 - Scope Item'', Str (str ''C''))]]"

definition collOutput :: "node list" where
  "collOutput =
     [plainNode ''000102030405060708090a0b'' ''P'' [] [''0c0d0e0f1011121314151617'']
        ''L1 - Line of Business'',
      plainNode ''0c0d0e0f1011121314151617'' ''A'' ''000102030405060708090a0b''
        [''18191a1b1c1d1e1f20212223''] ''L2 - Process Group'',
      plainNode ''18191a1b1c1d1e1f20212223'' ''C'' ''0c0d0e0f1011121314151617'' []
        ''L3 - Scope Item'']"

definition collOutput2 :: "node list" where
  "collOutput2 =
     [plainNode ''fffefdfcfbfaf9f8f7f6f5f4'' ''P'' [] [''f3f2f1f0efeeedecebeae9e8'']
        ''L1 - Line of Business'',
      plainNode ''f3f2f1f0efeeedecebeae9e8'' ''A'' ''fffefdfcfbfaf9f8f7f6f5f4'' []
        ''L2 - Process Group'',
      plainNode ''e7e6e5e4e3e2e1e0dfdedddc'' ''A:000102030405060708090a0b'' []
        [''dbdad9d8d7d6d5d4d3d2d1d0''] ''L2 - Process Group'',
      plainNode ''dbdad9d8d7d6d5d4d3d2d1d0'' ''C'' ''e7e6e5e4e3e2e1e0dfdedddc'' []
        ''L3 - Scope Item'']"

text \<open>The visits of the build for \<open>collRows\<close> with the ids of \<open>countingEntropy\<close>.\<close>

definition collVisits :: "(dedupKey \<times> jsstring option) list" where
  "collVisits =
     [((str ''L1 - Line of Business'', str ''P'', None), Some (str ''000102030405060708090a0b'')),
      ((str ''L2 - Process Group'', str ''A'', Some (str ''000102030405060708090a0b'')),
        Some (str ''0c0d0e0f1011121314151617'')),
      ((str ''L2 - Process Group'', str ''A:000102030405060708090a0b'', None),
        Some (str ''0c0d0e0f1011121314151617'')),
      ((str ''L3 - Scope Item'', str ''C'', Some (str ''0c0d0e0f1011121314151617'')),
        Some (str ''18191a1b1c1d1e1f20212223''))]"

text \<open>
  Two rows with the same levels and different values,
  \<open>[{L1: "A", L2: "X"}, {L1: "B", L2: "Y"}]\<close>, and the output of the build for them with the
  ids of \<open>countingEntropy\<close>.
\<close>

definition sibRows :: "row list" where
  "sibRows =
     [rowOf [(''L1 - Line of Business'', Str (str ''A'')), (''L2 - Process Group'', Str (str ''X''))],
      rowOf [(''L1 - Line of Business'', Str (str ''B'')), (''L2 - Process Group'', Str (str ''Y''))]]"

definition sibOutput :: "node list" where
  "sibOutput =
     [plainNode ''000102030405060708090a0b'' ''A'' [] [''0c0d0e0f1011121314151617'']
        ''L1 - Line of Business'',
      plainNode ''0c0d0e0f1011121314151617'' ''X'' ''000102030405060708090a0b'' []
        ''L2 - Process Group'',
      plainNode ''18191a1b1c1d1e1f20212223'' ''B'' [] [''2425262728292a2b2c2d2e2f'']
        ''L1 - Line of Business'',
      plainNode ''2425262728292a2b2c2d2e2f'' ''Y'' ''18191a1b1c1d1e1f20212223'' []
        ''L2 - Process Group'']"

section \<open>Basic facts about one step\<close>

lemma trim_Nil [simp]: "trim [] = []"
  by (simp add: trim_def)

lemma length_toHex: "length (toHex bs) = 2 * length bs"
  by (induction bs) (simp_all add: toHex_def)

lemma length_generateObjectId [simp]: "length (generateObjectId ent k) = 24"
  by (simp add: generateObjectId_def length_toHex randomBytes_def)

lemma generateObjectId_not_Nil [simp]: "generateObjectId ent k \<noteq> []"
  using length_generateObjectId [of ent k] by (metis length_0_conv zero_neq_numeral)

lemma sameButChild_refl [simp]: "sameButChild n n"
  by (simp add: sameButChild_def)

lemma sameButChild_trans: "sameButChild a b \<Longrightarrow> sameButChild b c \<Longrightarrow> sameButChild a c"
  by (cases a, cases b, cases c) (simp add: sameButChild_def)

lemma sameButChild_upd [simp]: "sameButChild n (n\<lparr>node_child := cs\<rparr>)"
  by (simp add: sameButChild_def)

lemma sameButChild_fields:
  assumes "sameButChild n m"
  shows "node_id m = node_id n" "title m = title n" "node_parent m = node_parent n"
    "levelFields m = levelFields n" "ID m = ID n" "Business_Role m = Business_Role n"
    "Fiori_app_UX_recommendations m = Fiori_app_UX_recommendations n"
    "Insights_Indicative m = Insights_Indicative n"
    "Business_stakeholders m = Business_stakeholders n"
    "Materiality m = Materiality n" "Description m = Description n"
  using assms by (cases n, cases m, simp add: sameButChild_def)+

lemma grows_refl [simp]: "grows out out"
  by (simp add: grows_def)

lemma grows_trans: "grows a b \<Longrightarrow> grows b c \<Longrightarrow> grows a c"
  unfolding grows_def
  by (meson le_trans less_le_trans prefix_order.order_trans sameButChild_trans)

lemma grows_append [simp]: "grows out (out @ ns)"
  by (simp add: grows_def nth_append)

lemma grows_length: "grows out out' \<Longrightarrow> length out \<le> length out'"
  by (simp add: grows_def)

lemma grows_nth: "grows out out' \<Longrightarrow> i < length out \<Longrightarrow> sameButChild (out ! i) (out' ! i)"
  by (simp add: grows_def)

lemma nth_update_child:
  "out[j := (out ! j)\<lparr>node_child := cs\<rparr>] ! i =
     (if i = j \<and> j < length out then (out ! j)\<lparr>node_child := cs\<rparr> else out ! i)"
  by (cases "j < length out") (auto simp: nth_list_update list_update_beyond)

lemma grows_linkChild: "grows out (linkChild p nid nmap out)"
  by (auto simp: linkChild_def grows_def nth_update_child split: option.splits)

lemma length_linkChild [simp]: "length (linkChild p nid nmap out) = length out"
  by (simp add: linkChild_def split: option.splits)

lemma sameButChild_linkChild: "i < length out \<Longrightarrow> sameButChild (out ! i) (linkChild p nid nmap out ! i)"
  by (auto simp: linkChild_def nth_update_child split: option.splits)

lemma outputNodes_createNode:
  "outputNodes (createNode ent row level value prev key st) =
     linkChild prev (generateObjectId ent (generated st))
       ((nodeMap st)(generateObjectId ent (generated st) \<mapsto> length (outputNodes st)))
       (outputNodes st @ [newNode (generateObjectId ent (generated st)) value prev level row])"
  by (simp add: createNode_def Let_def)

lemma length_createNode [simp]:
  "length (outputNodes (createNode ent row level value prev key st)) = Suc (length (outputNodes st))"
  by (simp add: outputNodes_createNode)

lemma grows_createNode: "grows (outputNodes st) (outputNodes (createNode ent row level value prev key st))"
  unfolding outputNodes_createNode
  by (rule grows_trans [OF grows_append grows_linkChild])

lemma created_createNode:
  "sameButChild (newNode (generateObjectId ent (generated st)) value prev level row)
     (outputNodes (createNode ent row level value prev key st) ! length (outputNodes st))"
  unfolding outputNodes_createNode
  using sameButChild_linkChild [of "length (outputNodes st)" "outputNodes st @ [nd]" for nd]
  by (metis length_append_singleton lessI nth_append_length)

lemma idMap_createNode [simp]:
  "idMap (createNode ent row level value prev key st) = (idMap st)(key \<mapsto> generateObjectId ent (generated st))"
  by (simp add: createNode_def Let_def)

lemma nodeMap_createNode [simp]:
  "nodeMap (createNode ent row level value prev key st) =
     (nodeMap st)(generateObjectId ent (generated st) \<mapsto> length (outputNodes st))"
  by (simp add: createNode_def Let_def)

lemma generated_createNode [simp]:
  "generated (createNode ent row level value prev key st) = Suc (generated st)"
  by (simp add: createNode_def Let_def)

lemma processLevel_absent:
  "absentOrEmpty (row level) \<Longrightarrow> processLevel ent row level sp = Inr sp"
  by (cases sp) (auto simp: processLevel_def absentOrEmpty_def split: jsval.splits)

lemma processLevel_populated:
  assumes "row level = Str s" "trim s \<noteq> []"
  shows "processLevel ent row level (st, prev) =
     (let key = compositeKey level (trim s) prev
      in if idMap st key = None
         then Inr (createNode ent row level (trim s) prev key st, Some (generateObjectId ent (generated st)))
         else Inr (st, idMap st key))"
proof -
  from assms have "s \<noteq> []" by auto
  with assms show ?thesis
    by (simp add: processLevel_def Let_def)
qed

lemma processLevel_Inr_cases:
  assumes "processLevel ent row level (st, prev) = Inr (st', prev')"
  obtains (skip) "st' = st" "prev' = prev" "\<not> populated (row level)"
  | (found) s nid where "row level = Str s" "trim s \<noteq> []"
      "idMap st (compositeKey level (trim s) prev) = Some nid" "st' = st" "prev' = Some nid"
  | (created) s where "row level = Str s" "trim s \<noteq> []"
      "idMap st (compositeKey level (trim s) prev) = None"
      "st' = createNode ent row level (trim s) prev (compositeKey level (trim s) prev) st"
      "prev' = Some (generateObjectId ent (generated st))"
proof (cases "populated (row level)")
  case False
  with assms have "st' = st \<and> prev' = prev"
    by (auto simp: processLevel_def populated_def split: if_splits jsval.splits)
  with False show ?thesis using skip by blast
next
  case True
  then obtain s where s: "row level = Str s" "trim s \<noteq> []"
    by (auto simp: populated_def split: jsval.splits)
  show ?thesis
  proof (cases "idMap st (compositeKey level (trim s) prev)")
    case None
    have "processLevel ent row level (st, prev) =
        Inr (createNode ent row level (trim s) prev (compositeKey level (trim s) prev) st,
             Some (generateObjectId ent (generated st)))"
      using None by (simp add: processLevel_populated [of row level s, OF s] Let_def)
    with assms have "st' = createNode ent row level (trim s) prev (compositeKey level (trim s) prev) st"
      "prev' = Some (generateObjectId ent (generated st))"
      by simp_all
    then show ?thesis using created s None by blast
  next
    case (Some nid)
    have "processLevel ent row level (st, prev) = Inr (st, Some nid)"
      using Some by (simp add: processLevel_populated [of row level s, OF s] Let_def)
    with assms have "st' = st" "prev' = Some nid"
      by simp_all
    then show ?thesis using found s Some by blast
  qed
qed

lemma processLevel_grows:
  assumes "processLevel ent row level (st, prev) = Inr (st', prev')"
  shows "grows (outputNodes st) (outputNodes st')"
  using assms by (cases rule: processLevel_Inr_cases) (simp_all add: grows_createNode)

lemma processLevels_grows:
  "processLevels ent row levels (st, prev) = Inr (st', prev') \<Longrightarrow> grows (outputNodes st) (outputNodes st')"
proof (induction levels arbitrary: st prev)
  case Nil
  then show ?case by simp
next
  case (Cons level levels)
  then obtain st1 prev1 where 1: "processLevel ent row level (st, prev) = Inr (st1, prev1)"
    and 2: "processLevels ent row levels (st1, prev1) = Inr (st', prev')"
    by (auto split: sum.splits)
  from processLevel_grows [OF 1] Cons.IH [OF 2] show ?case by (rule grows_trans)
qed

lemma processRow_Inr:
  "processRow ent row st = Inr st' \<longleftrightarrow> (\<exists>prev'. processLevels ent row hierarchyLevels (st, None) = Inr (st', prev'))"
  by (auto simp: processRow_def split: sum.splits)

lemma processRow_grows: "processRow ent row st = Inr st' \<Longrightarrow> grows (outputNodes st) (outputNodes st')"
  by (auto simp: processRow_Inr dest: processLevels_grows)

lemma processRows_grows: "processRows ent rows st = Inr st' \<Longrightarrow> grows (outputNodes st) (outputNodes st')"
proof (induction rows arbitrary: st)
  case Nil
  then show ?case by simp
next
  case (Cons row rows)
  then obtain st1 where 1: "processRow ent row st = Inr st1"
    and 2: "processRows ent rows st1 = Inr st'"
    by (auto split: sum.splits)
  from processRow_grows [OF 1] Cons.IH [OF 2] show ?case by (rule grows_trans)
qed

lemma processRows_append:
  "processRows ent (xs @ ys) st =
     (case processRows ent xs st of Inl e \<Rightarrow> Inl e | Inr st1 \<Rightarrow> processRows ent ys st1)"
  by (induction xs arbitrary: st) (auto split: sum.splits)

lemma processLevels_filter:
  "processLevels ent row levels sp =
     processLevels ent row (filter (\<lambda>level. \<not> absentOrEmpty (row level)) levels) sp"
  by (induction levels arbitrary: sp) (auto simp: processLevel_absent split: sum.splits)

lemma hierarchyLevels_tag:
  "map (\<lambda>level. level ! 1) hierarchyLevels = [49, 50, 51, 52, 53]"
  "\<forall>level\<in>set hierarchyLevels. 2 \<le> length level"
  by (simp_all add: hierarchyLevels_def str_def)

lemma hierarchyLevels_distinct_tags: "distinct (map (\<lambda>level. level ! 1) hierarchyLevels)"
  unfolding hierarchyLevels_tag by simp

lemma distinct_hierarchyLevels: "distinct hierarchyLevels"
  using hierarchyLevels_distinct_tags by (simp add: distinct_map)

lemma level_tag_inj:
  assumes "l1 \<in> set hierarchyLevels" "l2 \<in> set hierarchyLevels" "l1 ! 1 = l2 ! 1"
  shows "l1 = l2"
proof -
  have "inj_on (\<lambda>level. level ! 1) (set hierarchyLevels)"
    using hierarchyLevels_distinct_tags by (simp add: distinct_map)
  with assms show ?thesis by (auto dest: inj_onD)
qed

lemma compositeKey_tag:
  assumes "level \<in> set hierarchyLevels"
  shows "compositeKey level v p ! 1 = level ! 1"
proof -
  from assms hierarchyLevels_tag(2) have "1 < length level" by fastforce
  then show ?thesis by (simp add: compositeKey_def nth_append)
qed

lemma compositeKey_level:
  assumes "l1 \<in> set hierarchyLevels" "l2 \<in> set hierarchyLevels"
    "compositeKey l1 v1 p1 = compositeKey l2 v2 p2"
  shows "l1 = l2"
  using assms compositeKey_tag level_tag_inj by metis

lemma gapRow_cells:
  "gapRow (str ''L1 - Line of Business'') = Str (str ''A'')"
  "gapRow (str ''L2 - Process Group'') = Undefined"
  "gapRow (str ''L3 - Scope Item'') = Str (str ''Z'')"
  "gapRow (str ''L4 - Process Variant'') = Undefined"
  "gapRow (str ''L5 - Process Step'') = Undefined"
  by (simp_all add: gapRow_def rowOf_def str_def)

lemma trim_A: "trim (str ''A'') = str ''A''" "trim (str ''Z'') = str ''Z''"
  by (simp_all add: trim_def str_def isWhiteSpace_def)

lemma nodeLevel_newNode:
  assumes "level \<in> set hierarchyLevels" "value \<noteq> []"
  shows "nodeLevel (newNode nid value prev level row) = Some level"
proof -
  have "map_of (map (\<lambda>l. (l, if l = level then value else [])) ls) l' =
      (if l' \<in> set ls then Some (if l' = level then value else []) else None)" for ls l'
    by (induction ls) auto
  then have *: "map_of (levelFields (newNode nid value prev level row)) l' \<noteq> Some [] \<longleftrightarrow> l' = level"
    if "l' \<in> set hierarchyLevels" for l'
    using that assms by (simp add: newNode_def)
  have "find (\<lambda>l. l = level) ls = Some level" if "level \<in> set ls" for ls
    using that by (induction ls) auto
  from this [OF assms(1)]
  have "find (\<lambda>l. l = level) hierarchyLevels = Some level" .
  moreover have "find (\<lambda>l. map_of (levelFields (newNode nid value prev level row)) l \<noteq> Some []) hierarchyLevels
      = find (\<lambda>l. l = level) hierarchyLevels"
    by (rule find_cong) (simp_all add: *)
  ultimately show ?thesis by (simp add: nodeLevel_def)
qed

lemma nodeLevel_sameButChild: "sameButChild n m \<Longrightarrow> nodeLevel m = nodeLevel n"
  by (simp add: nodeLevel_def sameButChild_fields)

lemma gap_example:
  "\<exists>a z. processExcelToTreeJSON ent [gapRow] = Inr [a, z] \<and>
     title a = str ''A'' \<and> nodeLevel a = Some (str ''L1 - Line of Business'') \<and> node_parent a = [] \<and>
     title z = str ''Z'' \<and> nodeLevel z = Some (str ''L3 - Scope Item'') \<and> node_parent z = node_id a"
proof -
  define L1 where "L1 = str ''L1 - Line of Business''"
  define L3 where "L3 = str ''L3 - Scope Item''"
  define id0 where "id0 = generateObjectId ent 0"
  define key1 where "key1 = compositeKey L1 (str ''A'') None"
  define key3 where "key3 = compositeKey L3 (str ''Z'') (Some id0)"
  define st1 where "st1 = createNode ent gapRow L1 (str ''A'') None key1 initialState"
  define st3 where "st3 = createNode ent gapRow L3 (str ''Z'') (Some id0) key3 st1"
  define nA where "nA = newNode id0 (str ''A'') None L1 gapRow"
  define nZ where "nZ = newNode (generateObjectId ent (Suc 0)) (str ''Z'') (Some id0) L3 gapRow"
  have lev: "L1 \<in> set hierarchyLevels" "L3 \<in> set hierarchyLevels"
    by (simp_all add: hierarchyLevels_def L1_def L3_def)
  have ne: "str ''A'' \<noteq> []" "str ''Z'' \<noteq> []"
    by (simp_all add: str_def)
  have s1: "processLevel ent gapRow L1 (initialState, None) = Inr (st1, Some id0)"
    unfolding L1_def
    by (simp add: processLevel_populated [of gapRow _ "str ''A''"] gapRow_cells trim_A ne Let_def
        initialState_def st1_def id0_def key1_def L1_def)
  have "key3 \<noteq> key1"
  proof
    assume "key3 = key1"
    then have "L3 = L1" unfolding key3_def key1_def by (rule compositeKey_level [OF lev(2,1)])
    then show False by (simp add: L3_def L1_def str_def)
  qed
  then have free: "idMap st1 key3 = None"
    by (simp add: st1_def initialState_def)
  have gen1: "generated st1 = Suc 0"
    by (simp add: st1_def initialState_def)
  have s3: "processLevel ent gapRow L3 (st1, Some id0) = Inr (st3, Some (generateObjectId ent (Suc 0)))"
    using free unfolding L3_def
    by (simp add: processLevel_populated [of gapRow _ "str ''Z''"] gapRow_cells trim_A ne Let_def
        st3_def key3_def L3_def gen1)
  have absent: "processLevel ent gapRow (str ''L2 - Process Group'') sp = Inr sp"
    "processLevel ent gapRow (str ''L4 - Process Variant'') sp = Inr sp"
    "processLevel ent gapRow (str ''L5 - Process Step'') sp = Inr sp" for sp
    using processLevel_absent [of gapRow "str ''L2 - Process Group''" ent sp]
      processLevel_absent [of gapRow "str ''L4 - Process Variant''" ent sp]
      processLevel_absent [of gapRow "str ''L5 - Process Step''" ent sp]
    by (simp_all add: absentOrEmpty_def gapRow_cells)
  have run: "processExcelToTreeJSON ent [gapRow] = Inr (outputNodes st3)"
    using s1 s3
    by (simp add: processExcelToTreeJSON_def processRow_def hierarchyLevels_def
        absent L1_def [symmetric] L3_def [symmetric])
  have out1: "outputNodes st1 = [nA]"
    by (simp add: st1_def outputNodes_createNode initialState_def linkChild_def truthyId_def
        nA_def id0_def)
  have out3: "outputNodes st3 = linkChild (Some id0) (generateObjectId ent (Suc 0))
      ((nodeMap st1)(generateObjectId ent (Suc 0) \<mapsto> Suc 0)) [nA, nZ]"
    by (simp add: st3_def outputNodes_createNode out1 gen1 nZ_def)
  have len: "length (outputNodes st3) = 2"
    by (simp add: out3)
  then obtain a z where az: "outputNodes st3 = [a, z]"
    by (metis (no_types, opaque_lifting) length_0_conv length_Suc_conv numeral_2_eq_2)
  have "sameButChild ([nA, nZ] ! 0) (outputNodes st3 ! 0)" "sameButChild ([nA, nZ] ! 1) (outputNodes st3 ! 1)"
    unfolding out3 by (rule sameButChild_linkChild, simp)+
  then have same: "sameButChild nA a" "sameButChild nZ z"
    by (simp_all add: az)
  have "title a = str ''A''" "node_parent a = []" "title z = str ''Z''" "node_parent z = node_id a"
    using same
    by (simp_all add: sameButChild_fields nA_def nZ_def newNode_def truthyId_def id0_def)
  moreover have "nodeLevel a = Some L1" "nodeLevel z = Some L3"
    using same lev ne by (simp_all add: nodeLevel_sameButChild nA_def nZ_def nodeLevel_newNode)
  ultimately show ?thesis
    using run az by (simp add: L1_def L3_def)
qed

section \<open>Absent levels and empty rows\<close>

lemma processLevel_text:
  "textOrAbsent (row level) \<Longrightarrow> \<exists>sp'. processLevel ent row level sp = Inr sp'"
  by (cases sp) (auto simp: processLevel_def textOrAbsent_def Let_def split: jsval.splits)

lemma processLevels_text:
  "\<forall>level\<in>set levels. textOrAbsent (row level) \<Longrightarrow> \<exists>sp'. processLevels ent row levels sp = Inr sp'"
proof (induction levels arbitrary: sp)
  case Nil
  then show ?case by simp
next
  case (Cons level levels)
  then obtain sp1 where "processLevel ent row level sp = Inr sp1"
    using processLevel_text [of row level ent sp] by auto
  with Cons show ?case by simp
qed

lemma processRow_text:
  assumes "\<forall>level\<in>set hierarchyLevels. textOrAbsent (row level)"
  shows "\<exists>st'. processRow ent row st = Inr st'"
  using processLevels_text [OF assms, of ent "(st, None)"]
  by (auto simp: processRow_def)

lemma processRows_text:
  "\<forall>r\<in>set rows. \<forall>level\<in>set hierarchyLevels. textOrAbsent (r level) \<Longrightarrow>
     \<exists>st'. processRows ent rows st = Inr st'"
proof (induction rows arbitrary: st)
  case Nil
  then show ?case by simp
next
  case (Cons r rows)
  then obtain st1 where "processRow ent r st = Inr st1"
    using processRow_text [of r ent st] by auto
  with Cons show ?case by simp
qed

lemma processRow_empty:
  assumes "\<forall>level\<in>set hierarchyLevels. absentOrEmpty (row level)"
  shows "processRow ent row st = Inr st"
proof -
  from assms have "filter (\<lambda>level. \<not> absentOrEmpty (row level)) hierarchyLevels = []"
    by (simp add: filter_empty_conv)
  then have "processLevels ent row hierarchyLevels (st, None) = Inr (st, None)"
    using processLevels_filter [of ent row hierarchyLevels "(st, None)"] by simp
  then show ?thesis by (simp add: processRow_def)
qed

lemma emptyRow_cells:
  "emptyRow (str ''L1 - Line of Business'') = Undefined"
  "emptyRow (str ''L2 - Process Group'') = Str (str '' '')"
  "emptyRow (str ''L3 - Scope Item'') = Undefined"
  "emptyRow (str ''L4 - Process Variant'') = Undefined"
  "emptyRow (str ''L5 - Process Step'') = Undefined"
  by (simp_all add: emptyRow_def rowOf_def str_def)

lemma trim_blank: "trim (str '' '') = []"
  by (simp add: trim_def str_def isWhiteSpace_def)

text \<open>
  C2: at a level whose value is absent or empty (after trimming) the builder creates no
  node and changes nothing, the current parent id included; so a row is processed as if
  only its populated levels were there, each chaining to the node of the populated level
  before it. The row \<open>{L1: "A", L3: "Z"}\<close> gives exactly two nodes, "A" at L1 without
  parent and "Z" at L3 whose parent id is the id of "A".
\<close>

theorem skipped_level_keeps_parent:
  "(absentOrEmpty (row level) \<longrightarrow>
      processLevel ent row level (st, previousLevelId) = Inr (st, previousLevelId)) \<and>
   processLevels ent row levels sp =
     processLevels ent row (filter (\<lambda>level. \<not> absentOrEmpty (row level)) levels) sp \<and>
   (\<exists>a z. processExcelToTreeJSON ent [gapRow] = Inr [a, z] \<and>
      title a = str ''A'' \<and> nodeLevel a = Some (str ''L1 - Line of Business'') \<and>
      node_parent a = [] \<and>
      title z = str ''Z'' \<and> nodeLevel z = Some (str ''L3 - Scope Item'') \<and>
      node_parent z = node_id a)"
  using processLevel_absent [of row level ent "(st, previousLevelId)"]
    processLevels_filter [of ent row levels sp] gap_example [of ent]
  by blast

theorem skipped_level_keeps_parent_witness:
  "absentOrEmpty (gapRow (str ''L2 - Process Group'')) \<and>
   processLevel countingEntropy gapRow (str ''L2 - Process Group'') (initialState, Some (str ''00aa'')) =
     Inr (initialState, Some (str ''00aa''))"
  using skipped_level_keeps_parent [of gapRow "str ''L2 - Process Group''" countingEntropy
      initialState "Some (str ''00aa'')"]
  by (simp add: absentOrEmpty_def gapRow_cells)

text \<open>
  C9: a row whose level values are all absent or empty leaves the whole state of the
  build as it is (no node is created, no child list and no metadata changes), so the
  build gives the same result with or without that row; and a build over rows whose level
  cells are text or absent never fails.
\<close>

theorem empty_row_changes_nothing:
  "((\<forall>level\<in>set hierarchyLevels. absentOrEmpty (row level)) \<longrightarrow>
      processRow ent row st = Inr st \<and>
      processExcelToTreeJSON ent (pre @ row # post) = processExcelToTreeJSON ent (pre @ post)) \<and>
   ((\<forall>r\<in>set rows. \<forall>level\<in>set hierarchyLevels. textOrAbsent (r level)) \<longrightarrow>
      (\<exists>out. processExcelToTreeJSON ent rows = Inr out))"
proof (intro conjI impI)
  assume e: "\<forall>level\<in>set hierarchyLevels. absentOrEmpty (row level)"
  show "processRow ent row st = Inr st"
    using e by (rule processRow_empty)
  have "processRows ent (row # post) s = processRows ent post s" for s
    by (simp add: processRow_empty [OF e])
  then show "processExcelToTreeJSON ent (pre @ row # post) = processExcelToTreeJSON ent (pre @ post)"
    by (simp add: processExcelToTreeJSON_def processRows_append cong: sum.case_cong)
next
  assume "\<forall>r\<in>set rows. \<forall>level\<in>set hierarchyLevels. textOrAbsent (r level)"
  from processRows_text [OF this, of ent initialState]
  show "\<exists>out. processExcelToTreeJSON ent rows = Inr out"
    by (auto simp: processExcelToTreeJSON_def)
qed

theorem empty_row_changes_nothing_witness:
  "processRow countingEntropy emptyRow initialState = Inr initialState \<and>
   processExcelToTreeJSON countingEntropy ([gapRow] @ emptyRow # [gapRow]) =
     processExcelToTreeJSON countingEntropy ([gapRow] @ [gapRow]) \<and>
   (\<exists>out. processExcelToTreeJSON countingEntropy [gapRow, emptyRow] = Inr out)"
  using empty_row_changes_nothing [of emptyRow countingEntropy initialState "[gapRow]" "[gapRow]"
      "[gapRow, emptyRow]"]
  by (simp add: hierarchyLevels_def emptyRow_cells gapRow_cells absentOrEmpty_def textOrAbsent_def
      trim_blank)

section \<open>Invariants of the build\<close>

lemma newNode_fields [simp]:
  "node_id (newNode nid v p l r) = nid"
  "title (newNode nid v p l r) = v"
  "node_parent (newNode nid v p l r) = (if truthyId p then the p else [])"
  "node_child (newNode nid v p l r) = []"
  by (simp_all add: newNode_def)

lemma metadata_newNode [simp]: "metadata (newNode nid v p l r) = rowMetadata r"
  by (simp add: metadata_def rowMetadata_def newNode_def)

lemma parentOf_newNode: "parentOf (newNode nid v p l r) = (if truthyId p then p else None)"
  by (auto simp: parentOf_def truthyId_def split: option.splits)

lemma compositeKey_truthy: "compositeKey l v (if truthyId p then p else None) = compositeKey l v p"
  by (simp add: compositeKey_def truthyId_def)

lemma keyOf_newNode:
  assumes "l \<in> set hierarchyLevels" "v \<noteq> []"
  shows "keyOf (newNode nid v p l r) = compositeKey l v p"
  by (simp add: keyOf_def nodeLevel_newNode [OF assms] parentOf_newNode compositeKey_truthy)

lemma wfNode_newNode:
  assumes "l \<in> set hierarchyLevels" "v \<noteq> []"
  shows "wfNode (newNode nid v p l r)"
  using assms by (simp add: wfNode_def nodeLevel_newNode)

lemma sameButChild_stable:
  assumes "sameButChild n m"
  shows "keyOf m = keyOf n" "parentOf m = parentOf n" "metadata m = metadata n" "wfNode m = wfNode n"
proof -
  show p: "parentOf m = parentOf n"
    using assms by (simp add: parentOf_def sameButChild_fields)
  show "keyOf m = keyOf n"
    by (simp add: keyOf_def p nodeLevel_sameButChild [OF assms] sameButChild_fields [OF assms]
        cong: option.case_cong)
  show "metadata m = metadata n"
    using assms by (simp add: metadata_def sameButChild_fields)
  show "wfNode m = wfNode n"
    using assms by (simp add: wfNode_def nodeLevel_sameButChild sameButChild_fields)
qed

lemma map_createNode:
  assumes "\<And>n m. sameButChild n m \<Longrightarrow> f m = f n"
  shows "map f (outputNodes (createNode ent row level value prev key st)) =
     map f (outputNodes st) @ [f (newNode (generateObjectId ent (generated st)) value prev level row)]"
proof (rule nth_equalityI)
  let ?out' = "outputNodes (createNode ent row level value prev key st)"
  let ?nd = "newNode (generateObjectId ent (generated st)) value prev level row"
  show "length (map f ?out') = length (map f (outputNodes st) @ [f ?nd])"
    by simp
  fix i assume "i < length (map f ?out')"
  then have i: "i < Suc (length (outputNodes st))" by simp
  show "map f ?out' ! i = (map f (outputNodes st) @ [f ?nd]) ! i"
  proof (cases "i < length (outputNodes st)")
    case True
    from grows_nth [OF grows_createNode this]
    have "f (?out' ! i) = f (outputNodes st ! i)" by (rule assms)
    with True i show ?thesis by (simp add: nth_append)
  next
    case False
    with i have e: "i = length (outputNodes st)" by simp
    from created_createNode have "f (?out' ! length (outputNodes st)) = f ?nd" by (rule assms)
    with e show ?thesis by (simp add: nth_append)
  qed
qed

lemma map_grows:
  assumes "\<And>n m. sameButChild n m \<Longrightarrow> f m = f n" "grows out out'"
  shows "map f out = take (length out) (map f out')"
proof (rule nth_equalityI)
  show "length (map f out) = length (take (length out) (map f out'))"
    using grows_length [OF assms(2)] by simp
  fix i assume "i < length (map f out)"
  then have i: "i < length out" by simp
  from grows_nth [OF assms(2) i] have "f (out' ! i) = f (out ! i)" by (rule assms(1))
  with i grows_length [OF assms(2)] show "map f out ! i = take (length out) (map f out') ! i"
    by simp
qed

lemma invIds_createNode:
  assumes "invIds ent st"
  shows "invIds ent (createNode ent row level value prev key st)"
  using assms
  by (simp add: invIds_def map_createNode [where f = node_id] sameButChild_fields)

lemma invKeys_createNode:
  assumes "invKeys st" "level \<in> set hierarchyLevels" "value \<noteq> []"
    "idMap st (compositeKey level value prev) = None"
  shows "invKeys (createNode ent row level value prev (compositeKey level value prev) st)"
proof -
  let ?k = "compositeKey level value prev"
  let ?st' = "createNode ent row level value prev ?k st"
  let ?nid = "generateObjectId ent (generated st)"
  let ?kv = "\<lambda>n. (keyOf n, node_id n)"
  have m1: "map ?kv (outputNodes ?st') = map ?kv (outputNodes st) @ [(?k, ?nid)]"
    by (simp add: map_createNode [where f = ?kv] sameButChild_stable sameButChild_fields
        keyOf_newNode [OF assms(2,3)])
  have m2: "map keyOf (outputNodes ?st') = map keyOf (outputNodes st) @ [?k]"
    by (simp add: map_createNode [where f = keyOf] sameButChild_stable keyOf_newNode [OF assms(2,3)])
  from assms(1,4) have notin: "?k \<notin> set (map keyOf (outputNodes st))"
    by (auto simp: invKeys_def map_of_eq_None_iff image_comp o_def)
  have "idMap ?st' = map_of (map ?kv (outputNodes ?st'))"
  proof
    fix k
    show "idMap ?st' k = map_of (map ?kv (outputNodes ?st')) k"
      using assms(1,4) unfolding m1
      by (auto simp: invKeys_def map_add_def split: option.splits)
  qed
  moreover have "distinct (map keyOf (outputNodes ?st'))"
    unfolding m2 using assms(1) notin by (simp add: invKeys_def)
  ultimately show ?thesis by (simp add: invKeys_def)
qed

lemma wf_createNode:
  assumes "\<forall>n\<in>set (outputNodes st). wfNode n" "level \<in> set hierarchyLevels" "value \<noteq> []"
  shows "\<forall>n\<in>set (outputNodes (createNode ent row level value prev key st)). wfNode n"
proof -
  have "map wfNode (outputNodes (createNode ent row level value prev key st)) =
      map wfNode (outputNodes st) @ [True]"
    by (simp add: map_createNode [where f = wfNode] sameButChild_stable wfNode_newNode [OF assms(2,3)])
  then have "set (map wfNode (outputNodes (createNode ent row level value prev key st))) \<subseteq> {True}"
    using assms(1) by auto
  then show ?thesis by auto
qed

lemma parentsPrecede_alt:
  "parentsPrecede out \<longleftrightarrow>
     (\<forall>i<length out. map node_parent out ! i \<noteq> [] \<longrightarrow>
        map node_parent out ! i \<in> set (take i (map node_id out)))"
  by (simp add: parentsPrecede_def)

lemma parentsPrecede_createNode:
  assumes "parentsPrecede (outputNodes st)" "prevOK st prev"
  shows "parentsPrecede (outputNodes (createNode ent row level value prev key st))"
proof -
  let ?out' = "outputNodes (createNode ent row level value prev key st)"
  let ?nd = "newNode (generateObjectId ent (generated st)) value prev level row"
  have par: "map node_parent ?out' = map node_parent (outputNodes st) @ [node_parent ?nd]"
    by (simp add: map_createNode [where f = node_parent] sameButChild_fields)
  have ids: "map node_id ?out' = map node_id (outputNodes st) @ [node_id ?nd]"
    by (simp add: map_createNode [where f = node_id] sameButChild_fields)
  show ?thesis
    unfolding parentsPrecede_alt
  proof (intro allI impI)
    fix i assume i: "i < length ?out'" and ne: "map node_parent ?out' ! i \<noteq> []"
    show "map node_parent ?out' ! i \<in> set (take i (map node_id ?out'))"
    proof (cases "i < length (outputNodes st)")
      case True
      with ne assms(1) have "node_parent (outputNodes st ! i) \<in> set (take i (map node_id (outputNodes st)))"
        by (simp add: parentsPrecede_def par nth_append)
      with True show ?thesis by (simp add: par ids nth_append)
    next
      case False
      with i have e: "i = length (outputNodes st)" by simp
      with ne have "truthyId prev" by (simp add: par nth_append split: if_splits)
      with assms(2) have "the prev \<in> node_id ` set (outputNodes st)"
        by (auto simp: prevOK_def truthyId_def split: option.splits)
      with e \<open>truthyId prev\<close> show ?thesis by (simp add: par ids nth_append)
    qed
  qed
qed

lemma inv_initialState: "inv ent initialState"
  by (simp add: inv_def invIds_def invKeys_def parentsPrecede_def initialState_def)

lemma prevOK_None [simp]: "prevOK st None"
  by (simp add: prevOK_def)

lemma processLevel_inv:
  assumes "processLevel ent row level (st, prev) = Inr (st', prev')"
    "inv ent st" "prevOK st prev" "level \<in> set hierarchyLevels"
  shows "inv ent st' \<and> prevOK st' prev'"
  using assms(1)
proof (cases rule: processLevel_Inr_cases)
  case skip
  with assms show ?thesis by simp
next
  case (found s nid)
  from assms(2) have "idMap st = map_of (map (\<lambda>n. (keyOf n, node_id n)) (outputNodes st))"
    by (simp add: inv_def invKeys_def)
  with found(3) have "map_of (map (\<lambda>n. (keyOf n, node_id n)) (outputNodes st))
      (compositeKey level (trim s) prev) = Some nid"
    by simp
  then have "(compositeKey level (trim s) prev, nid) \<in> set (map (\<lambda>n. (keyOf n, node_id n)) (outputNodes st))"
    by (rule map_of_SomeD)
  then have "nid \<in> node_id ` set (outputNodes st)" by auto
  with found assms show ?thesis by (simp add: prevOK_def)
next
  case (created s)
  let ?k = "compositeKey level (trim s) prev"
  from assms(2) have i: "invIds ent st" "invKeys st" "\<forall>n\<in>set (outputNodes st). wfNode n"
    "parentsPrecede (outputNodes st)"
    by (simp_all add: inv_def)
  have "invIds ent st'"
    unfolding created(4) using i(1) by (rule invIds_createNode)
  moreover have "invKeys st'"
    unfolding created(4) using i(2) assms(4) created(2,3) by (rule invKeys_createNode)
  moreover have "\<forall>n\<in>set (outputNodes st'). wfNode n"
    unfolding created(4) using i(3) assms(4) created(2) by (rule wf_createNode)
  moreover have "parentsPrecede (outputNodes st')"
    unfolding created(4) using i(4) assms(3) by (rule parentsPrecede_createNode)
  moreover have "map node_id (outputNodes st') =
      map node_id (outputNodes st) @ [generateObjectId ent (generated st)]"
    unfolding created(4) by (simp add: map_createNode [where f = node_id] sameButChild_fields)
  then have "generateObjectId ent (generated st) \<in> set (map node_id (outputNodes st'))"
    by simp
  then have "prevOK st' prev'"
    unfolding created(5) prevOK_def by simp
  ultimately show ?thesis by (simp add: inv_def)
qed

lemma processLevels_inv:
  "processLevels ent row levels (st, prev) = Inr (st', prev') \<Longrightarrow> inv ent st \<Longrightarrow> prevOK st prev \<Longrightarrow>
   set levels \<subseteq> set hierarchyLevels \<Longrightarrow> inv ent st' \<and> prevOK st' prev'"
proof (induction levels arbitrary: st prev)
  case Nil
  then show ?case by simp
next
  case (Cons level levels)
  then obtain st1 prev1 where 1: "processLevel ent row level (st, prev) = Inr (st1, prev1)"
    and 2: "processLevels ent row levels (st1, prev1) = Inr (st', prev')"
    by (auto split: sum.splits)
  from Cons.prems have "level \<in> set hierarchyLevels" "set levels \<subseteq> set hierarchyLevels" by auto
  with processLevel_inv [OF 1 Cons.prems(2,3)] Cons.IH [OF 2] show ?case by blast
qed

lemma processRow_inv: "processRow ent row st = Inr st' \<Longrightarrow> inv ent st \<Longrightarrow> inv ent st'"
  using processLevels_inv [of ent row hierarchyLevels st None st']
  by (auto simp: processRow_Inr)

lemma processRows_inv: "processRows ent rows st = Inr st' \<Longrightarrow> inv ent st \<Longrightarrow> inv ent st'"
proof (induction rows arbitrary: st)
  case Nil
  then show ?case by simp
next
  case (Cons row rows)
  then obtain st1 where 1: "processRow ent row st = Inr st1"
    and 2: "processRows ent rows st1 = Inr st'"
    by (auto split: sum.splits)
  from Cons.IH [OF 2 processRow_inv [OF 1 Cons.prems(2)]] show ?case .
qed

lemma build_Inr:
  "processExcelToTreeJSON ent rows = Inr out \<longleftrightarrow>
     (\<exists>st. processRows ent rows initialState = Inr st \<and> outputNodes st = out)"
  by (auto simp: processExcelToTreeJSON_def split: sum.splits)

lemma build_inv:
  assumes "processExcelToTreeJSON ent rows = Inr out"
  obtains st where "processRows ent rows initialState = Inr st" "outputNodes st = out" "inv ent st"
  using assms processRows_inv [OF _ inv_initialState] unfolding build_Inr by blast

section \<open>Parents and children\<close>

text \<open>
  C10: in the output of a build every node with a non-empty parent id comes strictly after
  a node that bears this id.
\<close>

theorem parents_precede_children:
  assumes "processExcelToTreeJSON ent rows = Inr out"
  shows "\<forall>i<length out. node_parent (out ! i) \<noteq> [] \<longrightarrow>
     (\<exists>j<i. node_id (out ! j) = node_parent (out ! i))"
proof (intro allI impI)
  fix i assume i: "i < length out" and ne: "node_parent (out ! i) \<noteq> []"
  from assms obtain st where st: "outputNodes st = out" "inv ent st" by (rule build_inv)
  then have "parentsPrecede out" by (simp add: inv_def)
  with i ne have "node_parent (out ! i) \<in> set (take i (map node_id out))"
    by (simp add: parentsPrecede_def)
  then obtain j where "j < length (take i (map node_id out))"
    "take i (map node_id out) ! j = node_parent (out ! i)"
    by (auto simp: in_set_conv_nth)
  with i show "\<exists>j<i. node_id (out ! j) = node_parent (out ! i)"
    by (intro exI [of _ j]) simp
qed

lemma gap_build: "processExcelToTreeJSON countingEntropy [gapRow] = Inr gapOutput"
  by code_simp

theorem parents_precede_children_witness:
  "processExcelToTreeJSON countingEntropy [gapRow] = Inr gapOutput \<and>
   node_parent (gapOutput ! 1) \<noteq> [] \<and>
   (\<exists>j<1. node_id (gapOutput ! j) = node_parent (gapOutput ! 1))"
proof -
  have "node_parent (gapOutput ! 1) \<noteq> []" "(1::nat) < length gapOutput"
    by (simp_all add: gapOutput_def plainNode_def str_def)
  with parents_precede_children [OF gap_build] gap_build show ?thesis by blast
qed

section \<open>Metadata\<close>

lemma grows_metadata:
  "grows out out' \<Longrightarrow> i < length out \<Longrightarrow> metadata (out' ! i) = metadata (out ! i)"
  by (auto dest: grows_nth sameButChild_stable(3))

lemma processLevel_created_metadata:
  assumes "processLevel ent row level (st, prev) = Inr (st', prev')"
    "length (outputNodes st) \<le> i" "i < length (outputNodes st')"
  shows "metadata (outputNodes st' ! i) = rowMetadata row"
  using assms(1)
proof (cases rule: processLevel_Inr_cases)
  case skip
  with assms show ?thesis by simp
next
  case (found s nid)
  with assms show ?thesis by simp
next
  case (created s)
  from assms(2,3) have "i = length (outputNodes st)"
    unfolding created(4) by simp
  with created_createNode [of ent st "trim s" prev level row "compositeKey level (trim s) prev"]
  show ?thesis unfolding created(4)
    by (auto dest: sameButChild_stable(3))
qed

lemma processLevels_created_metadata:
  "processLevels ent row levels (st, prev) = Inr (st', prev') \<Longrightarrow>
   length (outputNodes st) \<le> i \<Longrightarrow> i < length (outputNodes st') \<Longrightarrow>
   metadata (outputNodes st' ! i) = rowMetadata row"
proof (induction levels arbitrary: st prev)
  case Nil
  then show ?case by simp
next
  case (Cons level levels)
  then obtain st1 prev1 where 1: "processLevel ent row level (st, prev) = Inr (st1, prev1)"
    and 2: "processLevels ent row levels (st1, prev1) = Inr (st', prev')"
    by (auto split: sum.splits)
  show ?case
  proof (cases "i < length (outputNodes st1)")
    case True
    from grows_metadata [OF processLevels_grows [OF 2] True]
      processLevel_created_metadata [OF 1 Cons.prems(2) True]
    show ?thesis by simp
  next
    case False
    then show ?thesis using Cons.IH [OF 2] Cons.prems(3) by simp
  qed
qed

lemma processRow_created_metadata:
  assumes "processRow ent row st = Inr st'"
    "length (outputNodes st) \<le> i" "i < length (outputNodes st')"
  shows "metadata (outputNodes st' ! i) = rowMetadata row"
  using assms processLevels_created_metadata [of ent row hierarchyLevels st None st' _ i]
  by (auto simp: processRow_Inr)

lemma descRow_cells:
  "descRow d (str ''L1 - Line of Business'') = Str (str ''A'')"
  "descRow d (str ''L2 - Process Group'') = Undefined"
  "descRow d (str ''L3 - Scope Item'') = Undefined"
  "descRow d (str ''L4 - Process Variant'') = Undefined"
  "descRow d (str ''L5 - Process Step'') = Undefined"
  "descRow d (str ''Description'') = Str d"
  by (simp_all add: descRow_def rowOf_def str_def)


lemma desc_example:
  "\<exists>a. processExcelToTreeJSON ent [descRow d1, descRow d2] = Inr [a] \<and>
     title a = str ''A'' \<and> Description a = Str d1"
proof -
  define L1 where "L1 = str ''L1 - Line of Business''"
  define key1 where "key1 = compositeKey L1 (str ''A'') None"
  define st1 where "st1 = createNode ent (descRow d1) L1 (str ''A'') None key1 initialState"
  define nA where "nA = newNode (generateObjectId ent 0) (str ''A'') None L1 (descRow d1)"
  have ne: "str ''A'' \<noteq> []"
    by (simp add: str_def)
  have absent: "processLevel ent (descRow d) (str ''L2 - Process Group'') sp = Inr sp"
    "processLevel ent (descRow d) (str ''L3 - Scope Item'') sp = Inr sp"
    "processLevel ent (descRow d) (str ''L4 - Process Variant'') sp = Inr sp"
    "processLevel ent (descRow d) (str ''L5 - Process Step'') sp = Inr sp" for sp d
    using processLevel_absent [of "descRow d" "str ''L2 - Process Group''" ent sp]
      processLevel_absent [of "descRow d" "str ''L3 - Scope Item''" ent sp]
      processLevel_absent [of "descRow d" "str ''L4 - Process Variant''" ent sp]
      processLevel_absent [of "descRow d" "str ''L5 - Process Step''" ent sp]
    by (simp_all add: absentOrEmpty_def descRow_cells)
  have s1: "processLevel ent (descRow d1) L1 (initialState, None) = Inr (st1, Some (generateObjectId ent 0))"
    unfolding L1_def
    by (simp add: processLevel_populated [of "descRow d1" _ "str ''A''"] descRow_cells trim_A ne Let_def
        initialState_def st1_def key1_def L1_def)
  have "idMap st1 key1 = Some (generateObjectId ent 0)"
    by (simp add: st1_def initialState_def)
  then have s2: "processLevel ent (descRow d2) L1 (st1, None) = Inr (st1, Some (generateObjectId ent 0))"
    unfolding L1_def
    by (simp add: processLevel_populated [of "descRow d2" _ "str ''A''"] descRow_cells trim_A ne Let_def
        key1_def L1_def)
  have run: "processExcelToTreeJSON ent [descRow d1, descRow d2] = Inr (outputNodes st1)"
    using s1 s2
    by (simp add: processExcelToTreeJSON_def processRow_def hierarchyLevels_def
        absent L1_def [symmetric])
  have out1: "outputNodes st1 = [nA]"
    by (simp add: st1_def outputNodes_createNode initialState_def linkChild_def truthyId_def nA_def)
  have "title nA = str ''A''" "Description nA = Str d1"
    by (simp_all add: nA_def newNode_def descRow_cells orElse_def)
  with run out1 show ?thesis by simp
qed

text \<open>
  C3: the metadata of a node are those of the row whose processing created it, with the
  defaults for missing fields, and no later row changes them: in the output of a build
  over \<open>pre @ row # post\<close> the nodes that were there after \<open>pre\<close> have the metadata they
  had then, and the nodes created while \<open>row\<close> was processed have the metadata of \<open>row\<close>.
  The metadata of a row are its cells, with the default in place of a missing cell (for a
  text cell in a text field and a numeric cell in the numeric field, which is what \<open>||\<close>
  gives there). Two rows that both lead to "A" at L1 give one node with the Description of
  the first.
\<close>

theorem metadata_first_row_wins:
  "(processExcelToTreeJSON ent (pre @ row # post) = Inr out \<longrightarrow>
      (\<exists>out0 out1.
         processExcelToTreeJSON ent pre = Inr out0 \<and>
         processExcelToTreeJSON ent (pre @ [row]) = Inr out1 \<and>
         length out0 \<le> length out1 \<and> length out1 \<le> length out \<and>
         (\<forall>i<length out0. metadata (out ! i) = metadata (out0 ! i)) \<and>
         (\<forall>i. length out0 \<le> i \<and> i < length out1 \<longrightarrow> metadata (out ! i) = rowMetadata row))) \<and>
   (textOrAbsent v \<longrightarrow> orElse v (Str []) = (case v of Undefined \<Rightarrow> Str [] | _ \<Rightarrow> v)) \<and>
   (numberOrAbsent v \<longrightarrow> orElse v (Num 0) = (case v of Undefined \<Rightarrow> Num 0 | _ \<Rightarrow> v)) \<and>
   (\<exists>a. processExcelToTreeJSON ent [descRow d1, descRow d2] = Inr [a] \<and>
      title a = str ''A'' \<and> Description a = Str d1)"
proof (intro conjI impI)
  assume "processExcelToTreeJSON ent (pre @ row # post) = Inr out"
  then obtain st where st: "processRows ent (pre @ row # post) initialState = Inr st"
    "outputNodes st = out"
    by (auto simp: build_Inr)
  then obtain st0 where 0: "processRows ent pre initialState = Inr st0"
    and 1: "processRows ent (row # post) st0 = Inr st"
    by (auto simp: processRows_append split: sum.splits)
  then obtain st1 where 2: "processRow ent row st0 = Inr st1"
    and 3: "processRows ent post st1 = Inr st"
    by (auto split: sum.splits)
  have g01: "grows (outputNodes st0) (outputNodes st1)"
    using 2 by (rule processRow_grows)
  have g1: "grows (outputNodes st1) out"
    using processRows_grows [OF 3] st(2) by simp
  have g0: "grows (outputNodes st0) out"
    using g01 g1 by (rule grows_trans)
  have "processExcelToTreeJSON ent pre = Inr (outputNodes st0)"
    using 0 by (simp add: processExcelToTreeJSON_def)
  moreover have "processExcelToTreeJSON ent (pre @ [row]) = Inr (outputNodes st1)"
    using 0 2 by (simp add: processExcelToTreeJSON_def processRows_append)
  moreover have "\<forall>i<length (outputNodes st0). metadata (out ! i) = metadata (outputNodes st0 ! i)"
    using g0 by (simp add: grows_metadata)
  moreover have "\<forall>i. length (outputNodes st0) \<le> i \<and> i < length (outputNodes st1) \<longrightarrow>
      metadata (out ! i) = rowMetadata row"
    using grows_metadata [OF g1] processRow_created_metadata [OF 2] by simp
  ultimately show "\<exists>out0 out1.
         processExcelToTreeJSON ent pre = Inr out0 \<and>
         processExcelToTreeJSON ent (pre @ [row]) = Inr out1 \<and>
         length out0 \<le> length out1 \<and> length out1 \<le> length out \<and>
         (\<forall>i<length out0. metadata (out ! i) = metadata (out0 ! i)) \<and>
         (\<forall>i. length out0 \<le> i \<and> i < length out1 \<longrightarrow> metadata (out ! i) = rowMetadata row)"
    using grows_length [OF g01] grows_length [OF g1] by blast
next
  assume "textOrAbsent v"
  then show "orElse v (Str []) = (case v of Undefined \<Rightarrow> Str [] | _ \<Rightarrow> v)"
    by (auto simp: textOrAbsent_def orElse_def split: jsval.splits)
next
  assume "numberOrAbsent v"
  then show "orElse v (Num 0) = (case v of Undefined \<Rightarrow> Num 0 | _ \<Rightarrow> v)"
    by (auto simp: numberOrAbsent_def orElse_def split: jsval.splits)
next
  show "\<exists>a. processExcelToTreeJSON ent [descRow d1, descRow d2] = Inr [a] \<and>
      title a = str ''A'' \<and> Description a = Str d1"
    by (rule desc_example)
qed

lemma desc_build:
  "processExcelToTreeJSON countingEntropy [descRow (str ''first''), descRow (str ''second'')] = Inr descOutput"
  "processExcelToTreeJSON countingEntropy [descRow (str ''first'')] = Inr descOutput"
  by code_simp+

theorem metadata_first_row_wins_witness:
  "processExcelToTreeJSON countingEntropy ([] @ descRow (str ''first'') # [descRow (str ''second'')]) =
     Inr descOutput \<and>
   metadata (descOutput ! 0) = rowMetadata (descRow (str ''first'')) \<and>
   Description (descOutput ! 0) = Str (str ''first'') \<and>
   orElse (Str (str ''first'')) (Str []) = Str (str ''first'') \<and>
   orElse Undefined (Num 0) = Num 0"
proof -
  let ?r1 = "descRow (str ''first'')" and ?r2 = "descRow (str ''second'')"
  have b: "processExcelToTreeJSON countingEntropy ([] @ ?r1 # [?r2]) = Inr descOutput"
    using desc_build(1) by simp
  have b0: "processExcelToTreeJSON countingEntropy [] = Inr []"
    by (simp add: processExcelToTreeJSON_def initialState_def)
  from metadata_first_row_wins [of countingEntropy "[]" ?r1 "[?r2]" descOutput] b
  obtain out0 out1 where o: "processExcelToTreeJSON countingEntropy [] = Inr out0"
    "processExcelToTreeJSON countingEntropy ([] @ [?r1]) = Inr out1"
    "\<forall>i. length out0 \<le> i \<and> i < length out1 \<longrightarrow> metadata (descOutput ! i) = rowMetadata ?r1"
    by blast
  from o(1) b0 have "out0 = []" by simp
  moreover from o(2) desc_build(2) have "out1 = descOutput" by simp
  moreover have "length descOutput = 1" by (simp add: descOutput_def)
  ultimately have "metadata (descOutput ! 0) = rowMetadata ?r1"
    using o(3) by simp
  moreover have "Description (descOutput ! 0) = Str (str ''first'')"
    by (simp add: descOutput_def)
  moreover have "orElse (Str (str ''first'')) (Str []) = Str (str ''first'')"
    using metadata_first_row_wins [of countingEntropy "[]" ?r1 "[?r2]" descOutput "Str (str ''first'')"]
    by (simp add: textOrAbsent_def)
  moreover have "orElse Undefined (Num 0) = Num 0"
    using metadata_first_row_wins [of countingEntropy "[]" ?r1 "[?r2]" descOutput Undefined]
    by (simp add: numberOrAbsent_def)
  ultimately show ?thesis using b by simp
qed

section \<open>Child lists\<close>

lemma Nil_not_generateObjectId [simp]: "[] \<noteq> generateObjectId ent k"
  using generateObjectId_not_Nil [of ent k] by metis

lemma childrenOf_alt:
  "childrenOf p out = map snd (filter (\<lambda>q. fst q = p) (map (\<lambda>m. (node_parent m, node_id m)) out))"
  by (induction out) (simp_all add: childrenOf_def)

lemma childrenOf_subset: "set (childrenOf p out) \<subseteq> set (map node_id out)"
  by (auto simp: childrenOf_def)

lemma linkChild_truthy:
  assumes "p \<noteq> []" "nmap p = Some j" "nid \<notin> set (node_child (out ! j))"
  shows "linkChild (Some p) nid nmap out = out[j := (out ! j)\<lparr>node_child := node_child (out ! j) @ [nid]\<rparr>]"
  using assms by (simp add: linkChild_def truthyId_def)

lemma linkChild_falsy: "\<not> truthyId prev \<Longrightarrow> linkChild prev nid nmap out = out"
  by (simp add: linkChild_def)

lemma inv_id_nth:
  assumes "inv ent st" "i < length (outputNodes st)"
  shows "node_id (outputNodes st ! i) = generateObjectId ent i"
proof -
  from assms(1) have "map node_id (outputNodes st) = map (generateObjectId ent) [0 ..< length (outputNodes st)]"
    by (simp add: inv_def invIds_def)
  then have "map node_id (outputNodes st) ! i = map (generateObjectId ent) [0 ..< length (outputNodes st)] ! i"
    by simp
  with assms(2) show ?thesis by simp
qed

lemma inv_parent_in_ids:
  assumes "inv ent st" "m \<in> set (outputNodes st)" "node_parent m \<noteq> []"
  shows "node_parent m \<in> set (map node_id (outputNodes st))"
proof -
  from assms(2) obtain i where i: "i < length (outputNodes st)" "outputNodes st ! i = m"
    by (auto simp: in_set_conv_nth)
  with assms(1,3) have "node_parent m \<in> set (take i (map node_id (outputNodes st)))"
    by (auto simp: inv_def parentsPrecede_def)
  then show ?thesis by (rule in_set_takeD)
qed

lemma createNode_children:
  assumes "inv ent st" "invChildren st" "prevOK st prev"
    "distinct (map node_id (outputNodes (createNode ent row level value prev key st)))"
  shows "invChildren (createNode ent row level value prev key st)"
proof -
  let ?st' = "createNode ent row level value prev key st"
  let ?out = "outputNodes st" and ?out' = "outputNodes ?st'"
  let ?nid = "generateObjectId ent (generated st)"
  let ?nd = "newNode ?nid value prev level row"
  let ?nmap = "(nodeMap st)(?nid \<mapsto> length ?out)"
  have ids': "map node_id ?out' = map node_id ?out @ [?nid]"
    by (simp add: map_createNode [where f = node_id] sameButChild_fields)
  have co: "childrenOf x ?out' = childrenOf x ?out @ (if node_parent ?nd = x then [?nid] else [])" for x
    unfolding childrenOf_alt
    by (simp add: map_createNode [where f = "\<lambda>m. (node_parent m, node_id m)"] sameButChild_fields)
  from assms(4) have fresh: "?nid \<notin> set (map node_id ?out)" and dist: "distinct (map node_id ?out)"
    unfolding ids' by simp_all
  have no_child: "childrenOf ?nid ?out = []"
  proof -
    have "node_parent m \<noteq> ?nid" if "m \<in> set ?out" for m
    proof (cases "node_parent m = []")
      case True
      then show ?thesis by (metis generateObjectId_not_Nil)
    next
      case False
      from inv_parent_in_ids [OF assms(1) that False] fresh show ?thesis by auto
    qed
    then show ?thesis by (simp add: childrenOf_def filter_empty_conv)
  qed
  have old_map: "nodeMap st (node_id (?out ! i)) = Some i" if "i < length ?out" for i
    using assms(2) that by (simp add: invChildren_def)
  have old_child: "node_child (?out ! i) = childrenOf (node_id (?out ! i)) ?out" if "i < length ?out" for i
    using assms(2) that by (simp add: invChildren_def)
  have id_ne: "node_id (?out ! i) \<noteq> ?nid" if "i < length ?out" for i
    using fresh that by (metis length_map nth_map nth_mem)
  have out': "?out' = linkChild prev ?nid ?nmap (?out @ [?nd])"
    by (rule outputNodes_createNode)
  have nth_id': "node_id (?out' ! i) = (if i < length ?out then node_id (?out ! i) else ?nid)"
    if "i < length ?out'" for i
  proof -
    have "map node_id ?out' ! i = (map node_id ?out @ [?nid]) ! i" by (simp only: ids')
    with that show ?thesis by (auto simp: nth_append less_Suc_eq)
  qed
  have nmap': "nodeMap ?st' (node_id (?out' ! i)) = Some i" if "i < length ?out'" for i
    using that id_ne [of i] old_map [of i] by (auto simp: nth_id' less_Suc_eq)
  have child': "node_child (?out' ! i) = childrenOf (node_id (?out' ! i)) ?out'" if i: "i < length ?out'" for i
  proof (cases "truthyId prev")
    case False
    then have eq: "?out' = ?out @ [?nd]" by (simp add: out' linkChild_falsy)
    have par: "node_parent ?nd = []" using False by simp
    have ne: "node_id (?out' ! i) \<noteq> []"
      using i by (auto simp: nth_id' inv_id_nth [OF assms(1)])
    show ?thesis
    proof (cases "i < length ?out")
      case True
      with ne show ?thesis
        unfolding co par using old_child [OF True]
        by (simp add: eq nth_append)
    next
      case False
      with i have "i = length ?out" by simp
      then show ?thesis
        unfolding co par by (simp add: eq no_child)
    qed
  next
    case True
    then obtain p where p: "prev = Some p" "p \<noteq> []"
      by (auto simp: truthyId_def split: option.splits)
    with assms(3) obtain j where j: "j < length ?out" "node_id (?out ! j) = p"
      by (auto simp: prevOK_def in_set_conv_nth)
    have pne: "p \<noteq> ?nid" using id_ne [OF j(1)] j(2) by simp
    have par: "node_parent ?nd = p" using p by (simp add: truthyId_def)
    have look: "?nmap p = Some j"
      using pne old_map [OF j(1)] j(2) by simp
    have "set (node_child (?out ! j)) \<subseteq> set (map node_id ?out)"
      unfolding old_child [OF j(1)] by (rule childrenOf_subset)
    with fresh have notin: "?nid \<notin> set (node_child ((?out @ [?nd]) ! j))"
      using j(1) by (auto simp: nth_append)
    have eq: "?out' = (?out @ [?nd])[j := ((?out @ [?nd]) ! j)\<lparr>node_child := node_child ((?out @ [?nd]) ! j) @ [?nid]\<rparr>]"
      using linkChild_truthy [of p ?nmap j ?nid "?out @ [?nd]", OF p(2) look notin]
      by (simp add: outputNodes_createNode p(1))
    have uniq: "node_id (?out ! k) = p \<longleftrightarrow> k = j" if "k < length ?out" for k
      using dist that j by (auto simp: distinct_conv_nth)
    show ?thesis
    proof (cases "i < length ?out")
      case True
      show ?thesis
      proof (cases "i = j")
        case True
        with j have "node_child (?out' ! i) = node_child (?out ! j) @ [?nid]"
          by (simp add: eq nth_append)
        moreover have "node_id (?out' ! i) = p"
          using True j i by (simp add: nth_id')
        ultimately show ?thesis
          unfolding co par using old_child [OF j(1)] j(2) by simp
      next
        case False
        with True have "node_child (?out' ! i) = node_child (?out ! i)"
          by (simp add: eq nth_append)
        moreover have "node_id (?out' ! i) = node_id (?out ! i)"
          using True i by (simp add: nth_id')
        moreover have "node_id (?out ! i) \<noteq> p"
          using uniq [OF True] False by simp
        ultimately show ?thesis
          unfolding co par using old_child [OF True] by simp
      qed
    next
      case False
      with i have e: "i = length ?out" by simp
      with j(1) have "node_child (?out' ! i) = []"
        by (simp add: eq nth_append)
      moreover have "node_id (?out' ! i) = ?nid"
        using e i by (simp add: nth_id')
      ultimately show ?thesis
        unfolding co par using pne by (simp add: no_child)
    qed
  qed
  show ?thesis
    unfolding invChildren_def using child' nmap' by blast
qed

lemma grows_distinct_ids:
  assumes "grows out out'" "distinct (map node_id out')"
  shows "distinct (map node_id out)"
proof -
  have "map node_id out = take (length out) (map node_id out')"
    using assms(1) by (intro map_grows) (simp_all add: sameButChild_fields)
  with assms(2) show ?thesis by simp
qed

lemma count_list_distinct:
  "distinct xs \<Longrightarrow> x \<in> set xs \<Longrightarrow> count_list xs x = 1"
  by (induction xs) auto

lemma invChildren_initialState: "invChildren initialState"
  by (simp add: invChildren_def initialState_def)

lemma processLevel_children:
  assumes "processLevel ent row level (st, prev) = Inr (st', prev')"
    "inv ent st" "invChildren st" "prevOK st prev" "distinct (map node_id (outputNodes st'))"
  shows "invChildren st'"
  using assms(1)
proof (cases rule: processLevel_Inr_cases)
  case skip
  with assms show ?thesis by simp
next
  case (found s nid)
  with assms show ?thesis by simp
next
  case (created s)
  from assms(2,3,4) assms(5) [unfolded created(4)] show ?thesis
    unfolding created(4) by (rule createNode_children)
qed

lemma processLevels_children:
  "processLevels ent row levels (st, prev) = Inr (st', prev') \<Longrightarrow> inv ent st \<Longrightarrow> invChildren st \<Longrightarrow>
   prevOK st prev \<Longrightarrow> set levels \<subseteq> set hierarchyLevels \<Longrightarrow>
   distinct (map node_id (outputNodes st')) \<Longrightarrow> invChildren st'"
proof (induction levels arbitrary: st prev)
  case Nil
  then show ?case by simp
next
  case (Cons level levels)
  then obtain st1 prev1 where 1: "processLevel ent row level (st, prev) = Inr (st1, prev1)"
    and 2: "processLevels ent row levels (st1, prev1) = Inr (st', prev')"
    by (auto split: sum.splits)
  from Cons.prems have l: "level \<in> set hierarchyLevels" "set levels \<subseteq> set hierarchyLevels" by auto
  from processLevel_inv [OF 1 Cons.prems(2,4) l(1)] have i1: "inv ent st1" "prevOK st1 prev1" by simp_all
  from grows_distinct_ids [OF processLevels_grows [OF 2] Cons.prems(6)]
  have "distinct (map node_id (outputNodes st1))" .
  from processLevel_children [OF 1 Cons.prems(2,3,4) this] have "invChildren st1" .
  from Cons.IH [OF 2 i1(1) this i1(2) l(2) Cons.prems(6)] show ?case .
qed

lemma processRow_children:
  assumes "processRow ent row st = Inr st'" "inv ent st" "invChildren st"
    "distinct (map node_id (outputNodes st'))"
  shows "invChildren st'"
  using assms processLevels_children [of ent row hierarchyLevels st None st']
  by (auto simp: processRow_Inr)

lemma processRows_children:
  "processRows ent rows st = Inr st' \<Longrightarrow> inv ent st \<Longrightarrow> invChildren st \<Longrightarrow>
   distinct (map node_id (outputNodes st')) \<Longrightarrow> invChildren st'"
proof (induction rows arbitrary: st)
  case Nil
  then show ?case by simp
next
  case (Cons row rows)
  then obtain st1 where 1: "processRow ent row st = Inr st1"
    and 2: "processRows ent rows st1 = Inr st'"
    by (auto split: sum.splits)
  from grows_distinct_ids [OF processRows_grows [OF 2] Cons.prems(4)]
  have "distinct (map node_id (outputNodes st1))" .
  from processRow_children [OF 1 Cons.prems(2,3) this] have "invChildren st1" .
  from Cons.IH [OF 2 processRow_inv [OF 1 Cons.prems(2)] this Cons.prems(4)] show ?case .
qed

lemma build_children:
  assumes "processExcelToTreeJSON ent rows = Inr out" "distinct (map node_id out)"
  shows "\<forall>i<length out. node_child (out ! i) = childrenOf (node_id (out ! i)) out"
proof -
  from assms(1) obtain st where st: "processRows ent rows initialState = Inr st" "outputNodes st = out"
    by (auto simp: build_Inr)
  from processRows_children [OF st(1) inv_initialState invChildren_initialState] assms(2) st(2)
  have "invChildren st" by simp
  with st(2) show ?thesis by (auto simp: invChildren_def)
qed

text \<open>
  C4: when the generated ids are pairwise distinct, the child list of every node of the
  output is the list of the ids of the nodes whose parent id is the id of this node, in
  the order of the output (the order of creation) and without duplicates; so a node with
  a non-empty parent id occurs exactly once in the child list of the node with that id,
  and every id in a child list is the id of a node of the output whose parent id is the
  id of the node that holds the list.
\<close>

theorem child_list_integrity:
  assumes "processExcelToTreeJSON ent rows = Inr out" "distinct (map node_id out)"
  shows "(\<forall>n\<in>set out. node_child n = map node_id (filter (\<lambda>m. node_parent m = node_id n) out)) \<and>
    (\<forall>n\<in>set out. distinct (node_child n)) \<and>
    (\<forall>m\<in>set out. node_parent m \<noteq> [] \<longrightarrow>
       (\<exists>n\<in>set out. node_id n = node_parent m \<and> count_list (node_child n) (node_id m) = 1)) \<and>
    (\<forall>n\<in>set out. \<forall>c\<in>set (node_child n). \<exists>m\<in>set out. node_id m = c \<and> node_parent m = node_id n)"
proof -
  have ch: "node_child n = map node_id (filter (\<lambda>m. node_parent m = node_id n) out)" if "n \<in> set out" for n
    using build_children [OF assms] that by (auto simp: in_set_conv_nth childrenOf_def)
  have d: "distinct (node_child n)" if "n \<in> set out" for n
    unfolding ch [OF that] using assms(2) by (rule distinct_map_filter)
  have p: "\<exists>n\<in>set out. node_id n = node_parent m \<and> count_list (node_child n) (node_id m) = 1"
    if m: "m \<in> set out" and ne: "node_parent m \<noteq> []" for m
  proof -
    from assms(1) obtain st where st: "outputNodes st = out" "inv ent st" by (rule build_inv)
    from m st(1) have "m \<in> set (outputNodes st)" by simp
    from inv_parent_in_ids [OF st(2) this ne] st(1)
    have "node_parent m \<in> node_id ` set out" by simp
    then obtain n where n: "n \<in> set out" "node_id n = node_parent m" by auto
    from m n(2) have "node_id m \<in> set (node_child n)"
      unfolding ch [OF n(1)] by auto
    with d [OF n(1)] have "count_list (node_child n) (node_id m) = 1"
      by (simp add: count_list_distinct)
    with n show ?thesis by blast
  qed
  have c: "\<exists>m\<in>set out. node_id m = c \<and> node_parent m = node_id n"
    if "n \<in> set out" "c \<in> set (node_child n)" for n c
    using that(2) unfolding ch [OF that(1)] by auto
  from ch d p c show ?thesis by blast
qed

lemma gapOutput_ids:
  "map node_id gapOutput = [str ''000102030405060708090a0b'', str ''0c0d0e0f1011121314151617'']"
  by (simp add: gapOutput_def plainNode_def)

lemma distinct_gapOutput_ids: "distinct (map node_id gapOutput)"
  unfolding gapOutput_ids by (simp add: str_def)

theorem child_list_integrity_witness:
  "processExcelToTreeJSON countingEntropy [gapRow] = Inr gapOutput \<and>
   distinct (map node_id gapOutput) \<and>
   node_child (gapOutput ! 0) =
     map node_id (filter (\<lambda>m. node_parent m = node_id (gapOutput ! 0)) gapOutput) \<and>
   distinct (node_child (gapOutput ! 0))"
proof -
  have "gapOutput ! 0 \<in> set gapOutput"
    by (simp add: gapOutput_def)
  with child_list_integrity [OF gap_build distinct_gapOutput_ids] gap_build distinct_gapOutput_ids
  show ?thesis by blast
qed

section \<open>Deduplication keys\<close>

lemma compositeKey_inj:
  assumes "l1 \<in> set hierarchyLevels" "l2 \<in> set hierarchyLevels" "okParent I p1" "okParent I p2"
    "avoidsIds I v1" "avoidsIds I v2" "compositeKey l1 v1 p1 = compositeKey l2 v2 p2"
  shows "l1 = l2 \<and> v1 = v2 \<and> p1 = p2"
proof -
  have l: "l1 = l2" using assms(1,2,7) by (rule compositeKey_level)
  have t: "truthyId p \<longleftrightarrow> p \<noteq> None" if "okParent I p" for p
    using that by (auto simp: okParent_def truthyId_def split: option.splits)
  show ?thesis
  proof (cases p1)
    case None
    show ?thesis
    proof (cases p2)
      case p2: None
      with None assms(7) l show ?thesis by (simp add: compositeKey_def truthyId_def)
    next
      case (Some q)
      with assms(4) have q: "q \<in> I" "q \<noteq> []" by (auto simp: okParent_def)
      from None Some assms(7) l q have "v1 = v2 @ colon # q"
        by (simp add: compositeKey_def truthyId_def)
      then have "suffix (colon # q) v1" by (simp add: suffix_def)
      with assms(5) q(1) show ?thesis by (simp add: avoidsIds_def)
    qed
  next
    case (Some p)
    with assms(3) have p: "p \<in> I" "p \<noteq> []" "length p = 24" by (auto simp: okParent_def)
    show ?thesis
    proof (cases p2)
      case None
      with Some assms(7) l p have "v2 = v1 @ colon # p"
        by (simp add: compositeKey_def truthyId_def)
      then have "suffix (colon # p) v2" by (simp add: suffix_def)
      with assms(6) p(1) show ?thesis by (simp add: avoidsIds_def)
    next
      case q: (Some q)
      with assms(4) have q': "q \<noteq> []" "length q = 24" by (auto simp: okParent_def)
      from Some q assms(7) l p q' have "v1 @ colon # p = v2 @ colon # q"
        by (simp add: compositeKey_def truthyId_def)
      moreover have "length (colon # p) = length (colon # q)" using p q' by simp
      ultimately have "v1 = v2 \<and> colon # p = colon # q"
        by (metis append_eq_append_conv)
      with Some q l show ?thesis by simp
    qed
  qed
qed

lemma nodeKey_sameButChild: "sameButChild n m \<Longrightarrow> nodeKey m = nodeKey n"
  by (simp add: nodeKey_def nodeLevel_sameButChild sameButChild_fields sameButChild_stable)

lemma keyOf_nodeKey:
  assumes "nodeLevel n = Some l"
  shows "keyOf n = compositeKey l (title n) (parentOf n)" "nodeKey n = (l, title n, parentOf n)"
  using assms by (simp_all add: keyOf_def nodeKey_def)

lemma prev_normal:
  assumes "inv ent st" "prevOK st prev"
  shows "(if truthyId prev then prev else None) = prev"
proof (cases prev)
  case None
  then show ?thesis by simp
next
  case (Some p)
  with assms(2) obtain i where "i < length (outputNodes st)" "node_id (outputNodes st ! i) = p"
    by (auto simp: prevOK_def in_set_conv_nth)
  with inv_id_nth [OF assms(1)] have "p \<noteq> []" by auto
  with Some show ?thesis by (simp add: truthyId_def)
qed

lemma nodeKey_newNode:
  assumes "l \<in> set hierarchyLevels" "v \<noteq> []"
  shows "nodeKey (newNode nid v p l r) = (l, v, if truthyId p then p else None)"
  by (simp add: nodeKey_def nodeLevel_newNode [OF assms] parentOf_newNode)

lemma inv_id_length:
  assumes "inv ent st" "q \<in> node_id ` set (outputNodes st)"
  shows "length q = 24"
proof -
  from assms(2) obtain i where "i < length (outputNodes st)" "node_id (outputNodes st ! i) = q"
    by (auto simp: in_set_conv_nth)
  with inv_id_nth [OF assms(1)] show ?thesis by auto
qed

lemma inv_okParent:
  assumes "inv ent st" "node_id ` set (outputNodes st) \<subseteq> I" "n \<in> set (outputNodes st)"
  shows "okParent I (parentOf n)"
proof (cases "node_parent n = []")
  case True
  then show ?thesis by (simp add: parentOf_def okParent_def)
next
  case False
  from inv_parent_in_ids [OF assms(1,3) False] have "node_parent n \<in> node_id ` set (outputNodes st)"
    by simp
  with inv_id_length [OF assms(1)] assms(2) False show ?thesis
    by (auto simp: parentOf_def okParent_def)
qed

lemma prevOK_okParent:
  assumes "inv ent st" "node_id ` set (outputNodes st) \<subseteq> I" "prevOK st prev"
  shows "okParent I prev"
  using assms inv_id_length [OF assms(1)]
  by (auto simp: prevOK_def okParent_def split: option.splits)

lemma found_key:
  assumes "inv ent st" "prevOK st prev" "level \<in> set hierarchyLevels"
    "node_id ` set (outputNodes st) \<subseteq> I" "\<forall>n\<in>set (outputNodes st). avoidsIds I (title n)"
    "avoidsIds I v" "idMap st (compositeKey level v prev) = Some nid"
  shows "\<exists>n\<in>set (outputNodes st). node_id n = nid \<and> nodeKey n = (level, v, prev)"
proof -
  from assms(1) have "idMap st = map_of (map (\<lambda>n. (keyOf n, node_id n)) (outputNodes st))"
    by (simp add: inv_def invKeys_def)
  with assms(7) have "map_of (map (\<lambda>n. (keyOf n, node_id n)) (outputNodes st))
      (compositeKey level v prev) = Some nid"
    by simp
  then have "(compositeKey level v prev, nid) \<in> set (map (\<lambda>n. (keyOf n, node_id n)) (outputNodes st))"
    by (rule map_of_SomeD)
  then obtain n where n: "n \<in> set (outputNodes st)" "keyOf n = compositeKey level v prev" "node_id n = nid"
    by auto
  from assms(1) n(1) have "wfNode n" by (simp add: inv_def)
  then obtain l where l: "l \<in> set hierarchyLevels" "nodeLevel n = Some l"
    by (auto simp: wfNode_def)
  from n(2) have e: "compositeKey l (title n) (parentOf n) = compositeKey level v prev"
    by (simp add: keyOf_nodeKey(1) [OF l(2)])
  from assms(5) n(1) have a: "avoidsIds I (title n)" by simp
  from compositeKey_inj [OF l(1) assms(3) inv_okParent [OF assms(1,4) n(1)]
      prevOK_okParent [OF assms(1,4,2)] a assms(6) e]
  have "nodeKey n = (level, v, prev)" by (simp add: keyOf_nodeKey(2) [OF l(2)])
  with n show ?thesis by blast
qed

lemma fresh_key:
  assumes "inv ent st" "idMap st (compositeKey level v prev) = None"
  shows "(level, v, prev) \<notin> set (map nodeKey (outputNodes st))"
proof
  assume "(level, v, prev) \<in> set (map nodeKey (outputNodes st))"
  then obtain n where n: "n \<in> set (outputNodes st)" "nodeKey n = (level, v, prev)" by auto
  from assms(1) n(1) have "wfNode n" by (simp add: inv_def)
  then obtain l where l: "nodeLevel n = Some l"
    by (auto simp: wfNode_def)
  with n(2) have "keyOf n = compositeKey level v prev"
    by (simp add: keyOf_def nodeKey_def)
  with n(1) have "compositeKey level v prev \<in> fst ` set (map (\<lambda>n. (keyOf n, node_id n)) (outputNodes st))"
    by force
  moreover from assms have "map_of (map (\<lambda>n. (keyOf n, node_id n)) (outputNodes st))
      (compositeKey level v prev) = None"
    by (simp add: inv_def invKeys_def)
  ultimately show False by (simp add: map_of_eq_None_iff)
qed

lemma firstSeen_append: "firstSeen seen (xs @ ys) = firstSeen (firstSeen seen xs) ys"
  by (induction xs arbitrary: seen) simp_all

lemma grows_ids_subset:
  assumes "grows out out'"
  shows "node_id ` set out \<subseteq> node_id ` set out'"
proof -
  have e: "map node_id out = take (length out) (map node_id out')"
    using assms by (intro map_grows) (simp_all add: sameButChild_fields)
  have "set (take (length out) (map node_id out')) \<subseteq> set (map node_id out')"
    by (rule set_take_subset)
  then have "set (map node_id out) \<subseteq> set (map node_id out')"
    by (simp only: e [symmetric])
  then show ?thesis by simp
qed

lemma grows_resolved_subset:
  assumes "grows out out'"
  shows "set (map (\<lambda>n. (nodeKey n, Some (node_id n))) out) \<subseteq>
    set (map (\<lambda>n. (nodeKey n, Some (node_id n))) out')"
proof -
  have e: "map (\<lambda>n. (nodeKey n, Some (node_id n))) out =
      take (length out) (map (\<lambda>n. (nodeKey n, Some (node_id n))) out')"
    using assms by (intro map_grows) (simp_all add: sameButChild_fields nodeKey_sameButChild)
  have "set (take (length out) (map (\<lambda>n. (nodeKey n, Some (node_id n))) out')) \<subseteq>
      set (map (\<lambda>n. (nodeKey n, Some (node_id n))) out')"
    by (rule set_take_subset)
  then show ?thesis by (simp only: e [symmetric])
qed

lemma levelVisits_single_skip:
  assumes "processLevel ent row level sp = Inr sp'" "\<not> populated (row level)"
  shows "levelVisits ent row [level] sp = []"
  using assms by (auto simp: populated_def split: jsval.splits)

lemma levelVisits_single_populated:
  assumes "processLevel ent row level sp = Inr sp'" "row level = Str s" "trim s \<noteq> []"
  shows "levelVisits ent row [level] sp = [((level, trim s, snd sp), snd sp')]"
  using assms by simp

lemma levelVisits_Cons:
  assumes "processLevel ent row level sp = Inr sp'"
  shows "levelVisits ent row (level # levels) sp =
    levelVisits ent row [level] sp @ levelVisits ent row levels sp'"
  using assms by simp

lemma processLevel_visit:
  assumes "processLevel ent row level (st, prev) = Inr (st', prev')"
    "inv ent st" "prevOK st prev" "level \<in> set hierarchyLevels"
    "node_id ` set (outputNodes st') \<subseteq> I" "\<forall>n\<in>set (outputNodes st). avoidsIds I (title n)"
    "cellAvoidsIds I (row level)"
  shows "map nodeKey (outputNodes st') =
      firstSeen (map nodeKey (outputNodes st)) (map fst (levelVisits ent row [level] (st, prev))) \<and>
    set (levelVisits ent row [level] (st, prev)) \<subseteq>
      set (map (\<lambda>n. (nodeKey n, Some (node_id n))) (outputNodes st')) \<and>
    (\<forall>n\<in>set (outputNodes st'). avoidsIds I (title n))"
  using assms(1)
proof (cases rule: processLevel_Inr_cases)
  case skip
  with assms(6) levelVisits_single_skip [OF assms(1) skip(3)] show ?thesis by simp
next
  case (found s nid)
  from assms(7) found(1) have av: "avoidsIds I (trim s)" by (simp add: cellAvoidsIds_def)
  from assms(5) found(4) have sub: "node_id ` set (outputNodes st) \<subseteq> I" by simp
  from found_key [OF assms(2,3,4) sub assms(6) av found(3)]
  obtain n where n: "n \<in> set (outputNodes st)" "node_id n = nid" "nodeKey n = (level, trim s, prev)"
    by blast
  have v: "levelVisits ent row [level] (st, prev) = [((level, trim s, prev), Some nid)]"
    using levelVisits_single_populated [OF assms(1) found(1,2)] found(5) by simp
  from n have "(level, trim s, prev) \<in> set (map nodeKey (outputNodes st))" by force
  moreover from n have "((level, trim s, prev), Some nid) \<in>
      set (map (\<lambda>n. (nodeKey n, Some (node_id n))) (outputNodes st))" by force
  ultimately show ?thesis using assms(6) unfolding v found(4) by simp
next
  case (created s)
  let ?k = "compositeKey level (trim s) prev"
  let ?nid = "generateObjectId ent (generated st)"
  let ?nd = "newNode ?nid (trim s) prev level row"
  from assms(7) created(1) have av: "avoidsIds I (trim s)" by (simp add: cellAvoidsIds_def)
  have v: "levelVisits ent row [level] (st, prev) = [((level, trim s, prev), Some ?nid)]"
    using levelVisits_single_populated [OF assms(1) created(1,2)] created(5) by simp
  have nk: "nodeKey ?nd = (level, trim s, prev)"
    by (simp add: nodeKey_newNode [OF assms(4) created(2)] prev_normal [OF assms(2,3)])
  have m1: "map nodeKey (outputNodes st') = map nodeKey (outputNodes st) @ [(level, trim s, prev)]"
    unfolding created(4) by (simp add: map_createNode [where f = nodeKey] nodeKey_sameButChild nk)
  have m2: "map (\<lambda>n. (nodeKey n, Some (node_id n))) (outputNodes st') =
      map (\<lambda>n. (nodeKey n, Some (node_id n))) (outputNodes st) @ [((level, trim s, prev), Some ?nid)]"
    unfolding created(4)
    by (simp add: map_createNode [where f = "\<lambda>n. (nodeKey n, Some (node_id n))"]
        nodeKey_sameButChild sameButChild_fields nk)
  have m3: "map title (outputNodes st') = map title (outputNodes st) @ [trim s]"
    unfolding created(4) by (simp add: map_createNode [where f = title] sameButChild_fields)
  from fresh_key [OF assms(2) created(3)]
  have a: "map nodeKey (outputNodes st') =
      firstSeen (map nodeKey (outputNodes st)) (map fst (levelVisits ent row [level] (st, prev)))"
    unfolding v m1 by simp
  have b: "set (levelVisits ent row [level] (st, prev)) \<subseteq>
      set (map (\<lambda>n. (nodeKey n, Some (node_id n))) (outputNodes st'))"
    unfolding v m2 by simp
  have "\<forall>t\<in>set (map title (outputNodes st')). avoidsIds I t"
    unfolding m3 using assms(6) av by auto
  then have c: "\<forall>n\<in>set (outputNodes st'). avoidsIds I (title n)" by simp
  from a b c show ?thesis by blast
qed

lemma processLevels_visit:
  "processLevels ent row levels (st, prev) = Inr (st', prev') \<Longrightarrow> inv ent st \<Longrightarrow> prevOK st prev \<Longrightarrow>
   set levels \<subseteq> set hierarchyLevels \<Longrightarrow> node_id ` set (outputNodes st') \<subseteq> I \<Longrightarrow>
   \<forall>n\<in>set (outputNodes st). avoidsIds I (title n) \<Longrightarrow>
   \<forall>level\<in>set levels. cellAvoidsIds I (row level) \<Longrightarrow>
   map nodeKey (outputNodes st') =
      firstSeen (map nodeKey (outputNodes st)) (map fst (levelVisits ent row levels (st, prev))) \<and>
   set (levelVisits ent row levels (st, prev)) \<subseteq>
      set (map (\<lambda>n. (nodeKey n, Some (node_id n))) (outputNodes st')) \<and>
   (\<forall>n\<in>set (outputNodes st'). avoidsIds I (title n))"
proof (induction levels arbitrary: st prev)
  case Nil
  then show ?case by simp
next
  case (Cons level levels)
  from Cons.prems(1) obtain st1 prev1 where 1: "processLevel ent row level (st, prev) = Inr (st1, prev1)"
    and 2: "processLevels ent row levels (st1, prev1) = Inr (st', prev')"
    by (auto split: sum.splits)
  from Cons.prems(4,7) have l: "level \<in> set hierarchyLevels" "set levels \<subseteq> set hierarchyLevels"
    "cellAvoidsIds I (row level)" "\<forall>level\<in>set levels. cellAvoidsIds I (row level)"
    by simp_all
  from processLevel_inv [OF 1 Cons.prems(2,3) l(1)] have i1: "inv ent st1" "prevOK st1 prev1" by simp_all
  have g: "grows (outputNodes st1) (outputNodes st')" using 2 by (rule processLevels_grows)
  from grows_ids_subset [OF g] Cons.prems(5) have sub1: "node_id ` set (outputNodes st1) \<subseteq> I" by simp
  from processLevel_visit [OF 1 Cons.prems(2,3) l(1) sub1 Cons.prems(6) l(3)]
  have a: "map nodeKey (outputNodes st1) =
      firstSeen (map nodeKey (outputNodes st)) (map fst (levelVisits ent row [level] (st, prev)))"
    and b: "set (levelVisits ent row [level] (st, prev)) \<subseteq>
      set (map (\<lambda>n. (nodeKey n, Some (node_id n))) (outputNodes st1))"
    and c: "\<forall>n\<in>set (outputNodes st1). avoidsIds I (title n)"
    by simp_all
  from Cons.IH [OF 2 i1 l(2) Cons.prems(5) c l(4)]
  have a': "map nodeKey (outputNodes st') =
      firstSeen (map nodeKey (outputNodes st1)) (map fst (levelVisits ent row levels (st1, prev1)))"
    and b': "set (levelVisits ent row levels (st1, prev1)) \<subseteq>
      set (map (\<lambda>n. (nodeKey n, Some (node_id n))) (outputNodes st'))"
    and c': "\<forall>n\<in>set (outputNodes st'). avoidsIds I (title n)"
    by simp_all
  have v: "levelVisits ent row (level # levels) (st, prev) =
      levelVisits ent row [level] (st, prev) @ levelVisits ent row levels (st1, prev1)"
    using 1 by (rule levelVisits_Cons)
  have "map nodeKey (outputNodes st') =
      firstSeen (map nodeKey (outputNodes st)) (map fst (levelVisits ent row (level # levels) (st, prev)))"
    unfolding v a' a by (simp only: map_append firstSeen_append)
  moreover have "set (levelVisits ent row [level] (st, prev)) \<subseteq>
      set (map (\<lambda>n. (nodeKey n, Some (node_id n))) (outputNodes st'))"
    using b grows_resolved_subset [OF g] by (rule subset_trans)
  then have "set (levelVisits ent row (level # levels) (st, prev)) \<subseteq>
      set (map (\<lambda>n. (nodeKey n, Some (node_id n))) (outputNodes st'))"
    unfolding v using b' by (simp only: set_append Un_subset_iff simp_thms)
  ultimately show ?case using c' by (intro conjI)
qed

lemma processRows_visit:
  "processRows ent rows st = Inr st' \<Longrightarrow> inv ent st \<Longrightarrow>
   node_id ` set (outputNodes st') \<subseteq> I \<Longrightarrow>
   \<forall>n\<in>set (outputNodes st). avoidsIds I (title n) \<Longrightarrow>
   \<forall>row\<in>set rows. \<forall>level\<in>set hierarchyLevels. cellAvoidsIds I (row level) \<Longrightarrow>
   map nodeKey (outputNodes st') =
      firstSeen (map nodeKey (outputNodes st)) (map fst (visits ent rows st)) \<and>
   set (visits ent rows st) \<subseteq> set (map (\<lambda>n. (nodeKey n, Some (node_id n))) (outputNodes st'))"
proof (induction rows arbitrary: st)
  case Nil
  then show ?case by simp
next
  case (Cons row rows)
  from Cons.prems(1) obtain st1 where 1: "processRow ent row st = Inr st1"
    and 2: "processRows ent rows st1 = Inr st'"
    by (auto split: sum.splits)
  from 1 obtain prev1 where p: "processLevels ent row hierarchyLevels (st, None) = Inr (st1, prev1)"
    by (auto simp: processRow_Inr)
  have i1: "inv ent st1" using 1 Cons.prems(2) by (rule processRow_inv)
  have g: "grows (outputNodes st1) (outputNodes st')" using 2 by (rule processRows_grows)
  from grows_ids_subset [OF g] Cons.prems(3) have sub1: "node_id ` set (outputNodes st1) \<subseteq> I" by simp
  from Cons.prems(5) have c: "\<forall>level\<in>set hierarchyLevels. cellAvoidsIds I (row level)"
    "\<forall>row\<in>set rows. \<forall>level\<in>set hierarchyLevels. cellAvoidsIds I (row level)"
    by simp_all
  from processLevels_visit [OF p Cons.prems(2) prevOK_None subset_refl sub1 Cons.prems(4) c(1)]
  have a: "map nodeKey (outputNodes st1) =
      firstSeen (map nodeKey (outputNodes st)) (map fst (levelVisits ent row hierarchyLevels (st, None)))"
    and b: "set (levelVisits ent row hierarchyLevels (st, None)) \<subseteq>
      set (map (\<lambda>n. (nodeKey n, Some (node_id n))) (outputNodes st1))"
    and t: "\<forall>n\<in>set (outputNodes st1). avoidsIds I (title n)"
    by simp_all
  from Cons.IH [OF 2 i1 Cons.prems(3) t c(2)]
  have a': "map nodeKey (outputNodes st') =
      firstSeen (map nodeKey (outputNodes st1)) (map fst (visits ent rows st1))"
    and b': "set (visits ent rows st1) \<subseteq> set (map (\<lambda>n. (nodeKey n, Some (node_id n))) (outputNodes st'))"
    by simp_all
  have v: "visits ent (row # rows) st = levelVisits ent row hierarchyLevels (st, None) @ visits ent rows st1"
    using 1 by simp
  have "map nodeKey (outputNodes st') =
      firstSeen (map nodeKey (outputNodes st)) (map fst (visits ent (row # rows) st))"
    unfolding v a' a by (simp only: map_append firstSeen_append)
  moreover have "set (levelVisits ent row hierarchyLevels (st, None)) \<subseteq>
      set (map (\<lambda>n. (nodeKey n, Some (node_id n))) (outputNodes st'))"
    using b grows_resolved_subset [OF g] by (rule subset_trans)
  then have "set (visits ent (row # rows) st) \<subseteq>
      set (map (\<lambda>n. (nodeKey n, Some (node_id n))) (outputNodes st'))"
    unfolding v using b' by (simp only: set_append Un_subset_iff simp_thms)
  ultimately show ?case by (intro conjI)
qed

lemma build_visits:
  assumes "processExcelToTreeJSON ent rows = Inr out" "titlesAvoidIds rows out"
  shows "map nodeKey out = firstSeen [] (map fst (visits ent rows initialState))"
    "set (visits ent rows initialState) \<subseteq> set (map (\<lambda>n. (nodeKey n, Some (node_id n))) out)"
proof -
  from assms(1) obtain st where st: "processRows ent rows initialState = Inr st" "outputNodes st = out"
    by (auto simp: build_Inr)
  have "\<forall>row\<in>set rows. \<forall>level\<in>set hierarchyLevels. cellAvoidsIds (node_id ` set out) (row level)"
    using assms(2) by (simp add: titlesAvoidIds_def)
  from processRows_visit [OF st(1) inv_initialState, of "node_id ` set out"] this st(2)
  show "map nodeKey out = firstSeen [] (map fst (visits ent rows initialState))"
    "set (visits ent rows initialState) \<subseteq> set (map (\<lambda>n. (nodeKey n, Some (node_id n))) out)"
    by (simp_all add: initialState_def)
qed

section \<open>The row that creates a node\<close>

lemma grows_nodeLevel:
  "grows out out' \<Longrightarrow> i < length out \<Longrightarrow> nodeLevel (out' ! i) = nodeLevel (out ! i)"
  by (auto dest: grows_nth nodeLevel_sameButChild)

lemma grows_node_id:
  "grows out out' \<Longrightarrow> i < length out \<Longrightarrow> node_id (out' ! i) = node_id (out ! i)"
  by (auto dest: grows_nth sameButChild_fields(1))

lemma grows_node_parent:
  "grows out out' \<Longrightarrow> i < length out \<Longrightarrow> node_parent (out' ! i) = node_parent (out ! i)"
  by (auto dest: grows_nth sameButChild_fields(3))

lemma grows_title:
  "grows out out' \<Longrightarrow> i < length out \<Longrightarrow> title (out' ! i) = title (out ! i)"
  by (auto dest: grows_nth sameButChild_fields(2))

lemma grows_keyOf:
  "grows out out' \<Longrightarrow> i < length out \<Longrightarrow> keyOf (out' ! i) = keyOf (out ! i)"
  by (auto dest: grows_nth sameButChild_stable(1))

lemma grows_parentOf:
  "grows out out' \<Longrightarrow> i < length out \<Longrightarrow> parentOf (out' ! i) = parentOf (out ! i)"
  by (auto dest: grows_nth sameButChild_stable(2))

lemma grows_prevRel:
  assumes "grows out out'" "prevRel W row out prev ls"
  shows "prevRel W row out' prev ls"
proof (cases "ls = []")
  case True
  with assms show ?thesis by (simp add: prevRel_def)
next
  case False
  with assms(2) obtain j p where j: "j < length out" "prev = Some (node_id (out ! j))"
    "nodeLevel (out ! j) = Some (last ls)"
    "keyOf (out ! j) = compositeKey (last ls) (cellText (row (last ls))) p"
    "((last ls, cellText (row (last ls)), p), prev) \<in> set W"
    by (auto simp: prevRel_def)
  have "j < length out' \<and> prev = Some (node_id (out' ! j)) \<and> nodeLevel (out' ! j) = Some (last ls) \<and>
      keyOf (out' ! j) = compositeKey (last ls) (cellText (row (last ls))) p \<and>
      ((last ls, cellText (row (last ls)), p), prev) \<in> set W"
    using j grows_length [OF assms(1)] grows_node_id [OF assms(1) j(1)]
      grows_nodeLevel [OF assms(1) j(1)] grows_keyOf [OF assms(1) j(1)]
    by simp
  with False show ?thesis unfolding prevRel_def by auto
qed

lemma grows_parentRel:
  assumes "grows out out'" "i < length out" "parentRel W row out i ls"
  shows "parentRel W row out' i ls"
proof (cases "ls = []")
  case True
  with assms show ?thesis by (simp add: parentRel_def grows_node_parent)
next
  case False
  with assms(3) obtain j p where j: "j < i" "node_parent (out ! i) \<noteq> []"
    "node_id (out ! j) = node_parent (out ! i)" "nodeLevel (out ! j) = Some (last ls)"
    "keyOf (out ! j) = compositeKey (last ls) (cellText (row (last ls))) p"
    "((last ls, cellText (row (last ls)), p), Some (node_parent (out ! i))) \<in> set W"
    by (auto simp: parentRel_def)
  from j(1) assms(2) have jl: "j < length out" by simp
  have "node_parent (out' ! i) \<noteq> [] \<and> j < i \<and> node_id (out' ! j) = node_parent (out' ! i) \<and>
      nodeLevel (out' ! j) = Some (last ls) \<and>
      keyOf (out' ! j) = compositeKey (last ls) (cellText (row (last ls))) p \<and>
      ((last ls, cellText (row (last ls)), p), Some (node_parent (out' ! i))) \<in> set W"
    using j grows_node_id [OF assms(1) jl] grows_nodeLevel [OF assms(1) jl]
      grows_node_parent [OF assms(1,2)] grows_keyOf [OF assms(1) jl]
    by simp
  with False show ?thesis unfolding parentRel_def by auto
qed

lemma grows_origin:
  assumes "grows out out'" "i < length out" "origin W row out i"
  shows "origin W row out' i"
proof -
  from assms(3) obtain level where l: "level \<in> set hierarchyLevels" "nodeLevel (out ! i) = Some level"
    "populated (row level)" "title (out ! i) = cellText (row level)"
    "((level, title (out ! i), parentOf (out ! i)), Some (node_id (out ! i))) \<in> set W"
    "parentRel W row out i (lowerPopulated row level)"
    by (auto simp: origin_def)
  have "nodeLevel (out' ! i) = Some level \<and> populated (row level) \<and>
      title (out' ! i) = cellText (row level) \<and>
      ((level, title (out' ! i), parentOf (out' ! i)), Some (node_id (out' ! i))) \<in> set W \<and>
      parentRel W row out' i (lowerPopulated row level)"
    using l grows_parentRel [OF assms(1,2) l(6)] grows_nodeLevel [OF assms(1,2)]
      grows_title [OF assms(1,2)] grows_parentOf [OF assms(1,2)] grows_node_id [OF assms(1,2)]
    by simp
  with l(1) show ?thesis unfolding origin_def by blast
qed

lemma takeWhile_done:
  assumes "hierarchyLevels = done @ level # rest"
  shows "takeWhile (\<lambda>l. l \<noteq> level) hierarchyLevels = done"
proof -
  have "distinct (done @ level # rest)"
    using distinct_hierarchyLevels unfolding assms .
  then have "\<And>x. x \<in> set done \<Longrightarrow> x \<noteq> level" by auto
  then have "takeWhile (\<lambda>l. l \<noteq> level) (done @ level # rest) = done"
    by (simp add: takeWhile_append2)
  then show ?thesis unfolding assms .
qed

lemma found_level:
  assumes "inv ent st" "idMap st (compositeKey level v prev) = Some nid" "level \<in> set hierarchyLevels"
  shows "\<exists>j<length (outputNodes st). nid = node_id (outputNodes st ! j) \<and>
     nodeLevel (outputNodes st ! j) = Some level \<and>
     keyOf (outputNodes st ! j) = compositeKey level v prev"
proof -
  from assms(1) have "idMap st = map_of (map (\<lambda>n. (keyOf n, node_id n)) (outputNodes st))"
    by (simp add: inv_def invKeys_def)
  with assms(2) have "map_of (map (\<lambda>n. (keyOf n, node_id n)) (outputNodes st))
      (compositeKey level v prev) = Some nid"
    by simp
  then have "(compositeKey level v prev, nid) \<in> set (map (\<lambda>n. (keyOf n, node_id n)) (outputNodes st))"
    by (rule map_of_SomeD)
  then obtain n where n: "n \<in> set (outputNodes st)" "keyOf n = compositeKey level v prev" "node_id n = nid"
    by auto
  from assms(1) n(1) have "wfNode n" by (simp add: inv_def)
  then obtain l where l: "l \<in> set hierarchyLevels" "nodeLevel n = Some l"
    by (auto simp: wfNode_def)
  with n(2) have "compositeKey l (title n) (parentOf n) = compositeKey level v prev"
    by (simp add: keyOf_def)
  from compositeKey_level [OF l(1) assms(3) this] l(2) have "nodeLevel n = Some level" by simp
  with n show ?thesis by (auto simp: in_set_conv_nth)
qed

lemma processLevel_origin:
  assumes "processLevel ent row level (st, prev) = Inr (st', prev')"
    "inv ent st" "prevOK st prev" "hierarchyLevels = done @ level # rest"
    "prevRel W row (outputNodes st) prev (filter (\<lambda>l. populated (row l)) done)"
    "set (levelVisits ent row [level] (st, prev)) \<subseteq> set W"
  shows "prevRel W row (outputNodes st') prev' (filter (\<lambda>l. populated (row l)) (done @ [level])) \<and>
    (\<forall>i. length (outputNodes st) \<le> i \<and> i < length (outputNodes st') \<longrightarrow>
       origin W row (outputNodes st') i)"
  using assms(1)
proof (cases rule: processLevel_Inr_cases)
  case skip
  with assms(5) show ?thesis by auto
next
  case (found s nid)
  from assms(4) have lev: "level \<in> set hierarchyLevels" by (metis in_set_conv_decomp)
  from found(1,2) have pop: "populated (row level)" and ct: "cellText (row level) = trim s"
    by (simp_all add: populated_def cellText_def)
  have lv: "levelVisits ent row [level] (st, prev) = [((level, trim s, prev), prev')]"
    using levelVisits_single_populated [OF assms(1) found(1,2)] by (simp only: snd_conv)
  have w: "((level, trim s, prev), Some nid) \<in> set W"
    using assms(6) unfolding lv found(5) by auto
  from found_level [OF assms(2) found(3) lev]
  obtain j where j: "j < length (outputNodes st)" "nid = node_id (outputNodes st ! j)"
    "nodeLevel (outputNodes st ! j) = Some level"
    "keyOf (outputNodes st ! j) = compositeKey level (trim s) prev"
    by blast
  have "prevRel W row (outputNodes st) (Some nid) (filter (\<lambda>l. populated (row l)) (done @ [level]))"
    unfolding prevRel_def using pop ct j w by auto
  with found(4,5) show ?thesis by auto
next
  case (created s)
  let ?out = "outputNodes st" and ?out' = "outputNodes st'"
  let ?nid = "generateObjectId ent (generated st)"
  let ?nd = "newNode ?nid (trim s) prev level row"
  let ?ls = "filter (\<lambda>l. populated (row l)) done"
  from assms(4) have lev: "level \<in> set hierarchyLevels" by (metis in_set_conv_decomp)
  from created(1,2) have pop: "populated (row level)" and ct: "cellText (row level) = trim s"
    by (simp_all add: populated_def cellText_def)
  have lv: "levelVisits ent row [level] (st, prev) = [((level, trim s, prev), prev')]"
    using levelVisits_single_populated [OF assms(1) created(1,2)] by (simp only: snd_conv)
  have w: "((level, trim s, prev), Some ?nid) \<in> set W"
    using assms(6) unfolding lv created(5) by auto
  have g: "grows ?out ?out'" unfolding created(4) by (rule grows_createNode)
  have len: "length ?out' = Suc (length ?out)" unfolding created(4) by simp
  have same: "sameButChild ?nd (?out' ! length ?out)"
    unfolding created(4) by (rule created_createNode)
  have pn: "parentOf ?nd = prev"
    by (simp add: parentOf_newNode prev_normal [OF assms(2,3)])
  have new: "node_id (?out' ! length ?out) = ?nid" "nodeLevel (?out' ! length ?out) = Some level"
    "node_parent (?out' ! length ?out) = (if truthyId prev then the prev else [])"
    "title (?out' ! length ?out) = trim s" "parentOf (?out' ! length ?out) = prev"
    "keyOf (?out' ! length ?out) = compositeKey level (trim s) prev"
    using lev created(2) pn
    by (simp_all add: sameButChild_fields [OF same] nodeLevel_sameButChild [OF same]
        sameButChild_stable [OF same] nodeLevel_newNode keyOf_newNode)
  have "prevRel W row ?out' prev' (filter (\<lambda>l. populated (row l)) (done @ [level]))"
    unfolding created(5) prevRel_def using new len pop ct w by auto
  moreover have "origin W row ?out' (length ?out)"
  proof -
    have lp: "lowerPopulated row level = ?ls"
      by (simp add: lowerPopulated_def takeWhile_done [OF assms(4)])
    have "parentRel W row ?out' (length ?out) ?ls"
    proof (cases "?ls = []")
      case True
      with assms(5) have "prev = None" by (simp add: prevRel_def)
      with True new show ?thesis by (simp add: parentRel_def truthyId_def)
    next
      case False
      with assms(5) obtain j p where j: "j < length ?out" "prev = Some (node_id (?out ! j))"
        "nodeLevel (?out ! j) = Some (last ?ls)"
        "keyOf (?out ! j) = compositeKey (last ?ls) (cellText (row (last ?ls))) p"
        "((last ?ls, cellText (row (last ?ls)), p), prev) \<in> set W"
        by (auto simp: prevRel_def)
      have ne: "node_id (?out ! j) \<noteq> []"
        using inv_id_nth [OF assms(2) j(1)] by simp
      with j(2) new(3) have par: "node_parent (?out' ! length ?out) = node_id (?out ! j)"
        by (simp add: truthyId_def)
      have "node_id (?out' ! j) = node_parent (?out' ! length ?out) \<and>
          nodeLevel (?out' ! j) = Some (last ?ls) \<and>
          keyOf (?out' ! j) = compositeKey (last ?ls) (cellText (row (last ?ls))) p \<and>
          ((last ?ls, cellText (row (last ?ls)), p), Some (node_parent (?out' ! length ?out))) \<in> set W"
        using par j grows_node_id [OF g j(1)] grows_nodeLevel [OF g j(1)] grows_keyOf [OF g j(1)]
        by simp
      with False ne par j(1) show ?thesis unfolding parentRel_def by auto
    qed
    with lev new pop ct lp w show ?thesis unfolding origin_def by auto
  qed
  ultimately show ?thesis using len by (auto simp: less_Suc_eq)
qed

lemma processLevels_origin:
  "processLevels ent row levels (st, prev) = Inr (st', prev') \<Longrightarrow> inv ent st \<Longrightarrow> prevOK st prev \<Longrightarrow>
   hierarchyLevels = done @ levels \<Longrightarrow>
   prevRel W row (outputNodes st) prev (filter (\<lambda>l. populated (row l)) done) \<Longrightarrow>
   set (levelVisits ent row levels (st, prev)) \<subseteq> set W \<Longrightarrow>
   length (outputNodes st) \<le> i \<Longrightarrow> i < length (outputNodes st') \<Longrightarrow>
   origin W row (outputNodes st') i"
proof (induction levels arbitrary: st prev "done")
  case Nil
  then show ?case by simp
next
  case (Cons level levels)
  from Cons.prems(1) obtain st1 prev1 where 1: "processLevel ent row level (st, prev) = Inr (st1, prev1)"
    and 2: "processLevels ent row levels (st1, prev1) = Inr (st', prev')"
    by (auto split: sum.splits)
  from Cons.prems(4) have lev: "level \<in> set hierarchyLevels"
    by (metis in_set_conv_decomp)
  from Cons.prems(4) have h: "hierarchyLevels = (done @ [level]) @ levels"
    by simp
  have v: "levelVisits ent row (level # levels) (st, prev) =
      levelVisits ent row [level] (st, prev) @ levelVisits ent row levels (st1, prev1)"
    using 1 by (rule levelVisits_Cons)
  from Cons.prems(6) have w1: "set (levelVisits ent row [level] (st, prev)) \<subseteq> set W"
    and w2: "set (levelVisits ent row levels (st1, prev1)) \<subseteq> set W"
    unfolding v by simp_all
  from processLevel_inv [OF 1 Cons.prems(2,3) lev] have i1: "inv ent st1" "prevOK st1 prev1" by simp_all
  from processLevel_origin [OF 1 Cons.prems(2,3,4,5) w1]
  have r: "prevRel W row (outputNodes st1) prev1 (filter (\<lambda>l. populated (row l)) (done @ [level]))"
    and o: "\<forall>i. length (outputNodes st) \<le> i \<and> i < length (outputNodes st1) \<longrightarrow>
      origin W row (outputNodes st1) i"
    by simp_all
  show ?case
  proof (cases "i < length (outputNodes st1)")
    case True
    with o Cons.prems(7) have "origin W row (outputNodes st1) i" by simp
    with processLevels_grows [OF 2] True show ?thesis by (rule grows_origin)
  next
    case False
    then have "length (outputNodes st1) \<le> i" by simp
    from Cons.IH [OF 2 i1 h r w2 this Cons.prems(8)] show ?thesis .
  qed
qed

lemma processRow_origin:
  assumes "processRow ent row st = Inr st'" "inv ent st"
    "length (outputNodes st) \<le> i" "i < length (outputNodes st')"
  shows "origin (levelVisits ent row hierarchyLevels (st, None)) row (outputNodes st') i"
proof -
  from assms(1) obtain prev' where p: "processLevels ent row hierarchyLevels (st, None) = Inr (st', prev')"
    by (auto simp: processRow_Inr)
  have "prevRel (levelVisits ent row hierarchyLevels (st, None)) row (outputNodes st) None
      (filter (\<lambda>l. populated (row l)) [])"
    by (simp add: prevRel_def)
  from processLevels_origin [OF p assms(2) prevOK_None _ this subset_refl assms(3,4)]
  show ?thesis by simp
qed

lemma creating_row:
  "processRows ent rows st = Inr st' \<Longrightarrow> length (outputNodes st) \<le> i \<Longrightarrow>
   i < length (outputNodes st') \<Longrightarrow>
   \<exists>k<length rows. \<exists>s0 s1.
     processRows ent (take k rows) st = Inr s0 \<and> processRow ent (rows ! k) s0 = Inr s1 \<and>
     length (outputNodes s0) \<le> i \<and> i < length (outputNodes s1) \<and>
     grows (outputNodes s1) (outputNodes st')"
proof (induction rows arbitrary: st' rule: rev_induct)
  case Nil
  then show ?case by simp
next
  case (snoc x xs)
  from snoc.prems(1) obtain sm where m: "processRows ent xs st = Inr sm" "processRow ent x sm = Inr st'"
    by (auto simp: processRows_append split: sum.splits)
  show ?case
  proof (cases "i < length (outputNodes sm)")
    case True
    from snoc.IH [OF m(1) snoc.prems(2) True]
    obtain k s0 s1 where k: "k < length xs" "processRows ent (take k xs) st = Inr s0"
      "processRow ent (xs ! k) s0 = Inr s1" "length (outputNodes s0) \<le> i" "i < length (outputNodes s1)"
      "grows (outputNodes s1) (outputNodes sm)"
      by blast
    from k(6) processRow_grows [OF m(2)] have "grows (outputNodes s1) (outputNodes st')"
      by (rule grows_trans)
    with k show ?thesis
      by (intro exI [of _ k]) (auto simp: nth_append)
  next
    case False
    with m snoc.prems(3) show ?thesis
      by (intro exI [of _ "length xs"]) auto
  qed
qed

lemma created_origin:
  assumes "processExcelToTreeJSON ent rows = Inr out" "i < length out"
  shows "\<exists>k<length rows. \<exists>s0 s1.
     processRows ent (take k rows) initialState = Inr s0 \<and>
     processRow ent (rows ! k) s0 = Inr s1 \<and>
     processExcelToTreeJSON ent (take k rows) = Inr (outputNodes s0) \<and>
     processExcelToTreeJSON ent (take (Suc k) rows) = Inr (outputNodes s1) \<and>
     length (outputNodes s0) \<le> i \<and> i < length (outputNodes s1) \<and>
     origin (levelVisits ent (rows ! k) hierarchyLevels (s0, None)) (rows ! k) out i"
proof -
  from assms(1) obtain st where st: "processRows ent rows initialState = Inr st" "outputNodes st = out"
    by (auto simp: build_Inr)
  have "length (outputNodes initialState) \<le> i" by (simp add: initialState_def)
  from creating_row [OF st(1) this] assms(2) st(2)
  obtain k s0 s1 where k: "k < length rows" "processRows ent (take k rows) initialState = Inr s0"
    "processRow ent (rows ! k) s0 = Inr s1" "length (outputNodes s0) \<le> i" "i < length (outputNodes s1)"
    "grows (outputNodes s1) out"
    by auto
  have "inv ent s0" by (rule processRows_inv [OF k(2) inv_initialState])
  from processRow_origin [OF k(3) this k(4,5)]
  have "origin (levelVisits ent (rows ! k) hierarchyLevels (s0, None)) (rows ! k) (outputNodes s1) i" .
  from grows_origin [OF k(6,5) this]
  have o: "origin (levelVisits ent (rows ! k) hierarchyLevels (s0, None)) (rows ! k) out i" .
  have "processExcelToTreeJSON ent (take k rows) = Inr (outputNodes s0)"
    using k(2) by (simp add: processExcelToTreeJSON_def)
  moreover have "processExcelToTreeJSON ent (take (Suc k) rows) = Inr (outputNodes s1)"
    using k(1,2,3) by (simp add: processExcelToTreeJSON_def take_Suc_conv_app_nth processRows_append)
  ultimately show ?thesis using k(1,2,3,4,5) o by blast
qed

lemma pos_less:
  "x \<in> set xs \<Longrightarrow> y \<in> set (takeWhile (\<lambda>l. l \<noteq> x) xs) \<Longrightarrow>
   length (takeWhile (\<lambda>l. l \<noteq> y) xs) < length (takeWhile (\<lambda>l. l \<noteq> x) xs)"
proof (induction xs)
  case Nil
  then show ?case by simp
next
  case (Cons a xs)
  show ?case
  proof (cases "a = x")
    case True
    with Cons.prems(2) show ?thesis by simp
  next
    case False
    show ?thesis
    proof (cases "a = y")
      case True
      with False show ?thesis by simp
    next
      case ay: False
      with False Cons.prems have "x \<in> set xs" "y \<in> set (takeWhile (\<lambda>l. l \<noteq> x) xs)"
        by auto
      from Cons.IH [OF this] False ay show ?thesis by simp
    qed
  qed
qed

lemma levelRank_lower:
  assumes "level \<in> set hierarchyLevels" "l \<in> set (lowerPopulated row level)"
  shows "levelRank l < levelRank level"
  using assms pos_less [of level hierarchyLevels l]
  by (simp add: levelRank_def lowerPopulated_def)

lemma levelRank_one:
  assumes "levelRank level = 1"
  shows "lowerPopulated row level = []"
  using assms by (simp add: levelRank_def lowerPopulated_def)

lemma gapOutput_ranks:
  "nodeRank (gapOutput ! 0) = Some 1" "nodeRank (gapOutput ! 1) = Some 3"
  "node_parent (gapOutput ! 1) = node_id (gapOutput ! 0)"
  by code_simp+

lemma orphan_build: "processExcelToTreeJSON countingEntropy [orphanRow] = Inr orphanOutput"
  by code_simp

lemma orphanOutput_rank:
  "nodeRank (orphanOutput ! 0) = Some 2" "node_parent (orphanOutput ! 0) = []"
  by code_simp+

section \<open>Ranks of parents\<close>

lemma sib_build: "processExcelToTreeJSON countingEntropy sibRows = Inr sibOutput"
  by code_simp

lemma inv_distinct_keyOf:
  assumes "processExcelToTreeJSON ent rows = Inr out"
  shows "distinct (map keyOf out)"
proof -
  from assms obtain st where st: "processRows ent rows initialState = Inr st" "outputNodes st = out"
    by (auto simp: build_Inr)
  have "inv ent st" by (rule processRows_inv [OF st(1) inv_initialState])
  with st(2) show ?thesis by (simp add: inv_def invKeys_def)
qed

text \<open>
  C6, as stated, fails: the row \<open>{L1: "A", L3: "Z"}\<close> gives a node "Z" at rank 3 whose
  parent is the node "A" at rank 1.
\<close>

theorem parent_rank_counterexample:
  "processExcelToTreeJSON countingEntropy [gapRow] = Inr gapOutput \<and>
   nodeRank (gapOutput ! 1) = Some 3 \<and>
   node_parent (gapOutput ! 1) = node_id (gapOutput ! 0) \<and>
   nodeRank (gapOutput ! 0) = Some 1"
  using gap_build gapOutput_ranks by simp

text \<open>
  C6, amended: a node \<open>i\<close> of the output that has a parent was created while some row \<open>k\<close>
  was processed, at a level \<open>level\<close> for which row \<open>k\<close> has a value, and its parent is the
  node that the same row reached just before: with \<open>lower\<close> the nearest level below \<open>level\<close>
  for which row \<open>k\<close> has a value, the visit of row \<open>k\<close> to \<open>lower\<close> (with the value of the
  row there and the parent id \<open>p\<close> the row had reached by then) resolved to the parent id
  of node \<open>i\<close>; that id is the id of an earlier node \<open>j\<close> of the output, which is at level
  \<open>lower\<close> and is the one node of the output stored under the key of that visit. The rank
  of \<open>lower\<close> is strictly lower than the rank of \<open>level\<close>.
\<close>

theorem parent_is_nearest_lower_level:
  assumes "processExcelToTreeJSON ent rows = Inr out" "i < length out" "node_parent (out ! i) \<noteq> []"
  shows "\<exists>k<length rows. \<exists>s0 s1 level lower p j.
     processRows ent (take k rows) initialState = Inr s0 \<and>
     processRow ent (rows ! k) s0 = Inr s1 \<and>
     length (outputNodes s0) \<le> i \<and> i < length (outputNodes s1) \<and>
     nodeLevel (out ! i) = Some level \<and> level \<in> set hierarchyLevels \<and>
     title (out ! i) = cellText ((rows ! k) level) \<and>
     ((level, title (out ! i), Some (node_parent (out ! i))), Some (node_id (out ! i)))
       \<in> set (levelVisits ent (rows ! k) hierarchyLevels (s0, None)) \<and>
     lowerPopulated (rows ! k) level \<noteq> [] \<and> lower = last (lowerPopulated (rows ! k) level) \<and>
     levelRank lower < levelRank level \<and>
     ((lower, cellText ((rows ! k) lower), p), Some (node_parent (out ! i)))
       \<in> set (levelVisits ent (rows ! k) hierarchyLevels (s0, None)) \<and>
     j < i \<and> node_id (out ! j) = node_parent (out ! i) \<and> nodeLevel (out ! j) = Some lower \<and>
     keyOf (out ! j) = compositeKey lower (cellText ((rows ! k) lower)) p \<and>
     (\<forall>j'<length out. keyOf (out ! j') = keyOf (out ! j) \<longrightarrow> j' = j)"
proof -
  from created_origin [OF assms(1,2)]
  obtain k s0 s1 where k: "k < length rows" "processRows ent (take k rows) initialState = Inr s0"
    "processRow ent (rows ! k) s0 = Inr s1" "length (outputNodes s0) \<le> i" "i < length (outputNodes s1)"
    "origin (levelVisits ent (rows ! k) hierarchyLevels (s0, None)) (rows ! k) out i"
    by blast
  let ?W = "levelVisits ent (rows ! k) hierarchyLevels (s0, None)"
  from k(6) obtain level where l: "level \<in> set hierarchyLevels" "nodeLevel (out ! i) = Some level"
    "title (out ! i) = cellText ((rows ! k) level)"
    "((level, title (out ! i), parentOf (out ! i)), Some (node_id (out ! i))) \<in> set ?W"
    "parentRel ?W (rows ! k) out i (lowerPopulated (rows ! k) level)"
    by (auto simp: origin_def)
  let ?ls = "lowerPopulated (rows ! k) level"
  from assms(3) have po: "parentOf (out ! i) = Some (node_parent (out ! i))"
    by (simp add: parentOf_def)
  from l(5) assms(3) have ne: "?ls \<noteq> []"
    by (auto simp: parentRel_def split: if_splits)
  with l(5) obtain j p where j: "j < i" "node_id (out ! j) = node_parent (out ! i)"
    "nodeLevel (out ! j) = Some (last ?ls)"
    "keyOf (out ! j) = compositeKey (last ?ls) (cellText ((rows ! k) (last ?ls))) p"
    "((last ?ls, cellText ((rows ! k) (last ?ls)), p), Some (node_parent (out ! i))) \<in> set ?W"
    by (auto simp: parentRel_def)
  from ne have "last ?ls \<in> set ?ls" by simp
  from levelRank_lower [OF l(1) this] have r: "levelRank (last ?ls) < levelRank level" .
  from j(1) assms(2) have jl: "j < length out" by simp
  have u: "\<forall>j'<length out. keyOf (out ! j') = keyOf (out ! j) \<longrightarrow> j' = j"
  proof (intro allI impI)
    fix j' assume a: "j' < length out" "keyOf (out ! j') = keyOf (out ! j)"
    have d: "distinct (map keyOf out)" using assms(1) by (rule inv_distinct_keyOf)
    from a jl have "map keyOf out ! j' = map keyOf out ! j" by simp
    with nth_eq_iff_index_eq [OF d, of j' j] a(1) jl show "j' = j" by simp
  qed
  from k(1-5) l(1-4) po ne r j u show ?thesis
    apply (intro exI [of _ k] conjI)
    apply assumption
    apply (rule exI [of _ s0])
    apply (rule exI [of _ s1])
    apply (rule exI [of _ level])
    apply (rule exI [of _ "last ?ls"])
    apply (rule exI [of _ p])
    apply (rule exI [of _ j])
    apply simp
    done
qed

theorem parent_is_nearest_lower_level_witness:
  "\<exists>k<length sibRows. \<exists>s0 s1 level lower p j.
     processRows countingEntropy (take k sibRows) initialState = Inr s0 \<and>
     processRow countingEntropy (sibRows ! k) s0 = Inr s1 \<and>
     length (outputNodes s0) \<le> 3 \<and> 3 < length (outputNodes s1) \<and>
     nodeLevel (sibOutput ! 3) = Some level \<and> level \<in> set hierarchyLevels \<and>
     title (sibOutput ! 3) = cellText ((sibRows ! k) level) \<and>
     ((level, title (sibOutput ! 3), Some (node_parent (sibOutput ! 3))), Some (node_id (sibOutput ! 3)))
       \<in> set (levelVisits countingEntropy (sibRows ! k) hierarchyLevels (s0, None)) \<and>
     lowerPopulated (sibRows ! k) level \<noteq> [] \<and> lower = last (lowerPopulated (sibRows ! k) level) \<and>
     levelRank lower < levelRank level \<and>
     ((lower, cellText ((sibRows ! k) lower), p), Some (node_parent (sibOutput ! 3)))
       \<in> set (levelVisits countingEntropy (sibRows ! k) hierarchyLevels (s0, None)) \<and>
     j < 3 \<and> node_id (sibOutput ! j) = node_parent (sibOutput ! 3) \<and>
     nodeLevel (sibOutput ! j) = Some lower \<and>
     keyOf (sibOutput ! j) = compositeKey lower (cellText ((sibRows ! k) lower)) p \<and>
     (\<forall>j'<length sibOutput. keyOf (sibOutput ! j') = keyOf (sibOutput ! j) \<longrightarrow> j' = j)"
proof -
  have "(3::nat) < length sibOutput" "node_parent (sibOutput ! 3) \<noteq> []"
    by (simp_all add: sibOutput_def plainNode_def str_def)
  from parent_is_nearest_lower_level [OF sib_build this] show ?thesis .
qed

text \<open>
  C7, as stated, fails: the row \<open>{L2: "X"}\<close> gives a node at rank 2 whose parent id is
  empty.
\<close>

theorem top_level_counterexample:
  "processExcelToTreeJSON countingEntropy [orphanRow] = Inr orphanOutput \<and>
   node_parent (orphanOutput ! 0) = [] \<and>
   nodeRank (orphanOutput ! 0) = Some 2"
  using orphan_build orphanOutput_rank by simp

text \<open>
  C7, amended: a node of the output was created while some row \<open>k\<close> was processed; its
  parent id is empty exactly when row \<open>k\<close> has no value at any level below the node's own
  level, which is always so for a node at rank 1; a non-empty parent id is the id of an
  earlier node of the output.
\<close>

theorem parent_empty_iff_no_lower_level:
  assumes "processExcelToTreeJSON ent rows = Inr out" "i < length out"
  shows "\<exists>k<length rows. \<exists>out0 out1 level.
     processExcelToTreeJSON ent (take k rows) = Inr out0 \<and>
     processExcelToTreeJSON ent (take (Suc k) rows) = Inr out1 \<and>
     length out0 \<le> i \<and> i < length out1 \<and>
     nodeLevel (out ! i) = Some level \<and> level \<in> set hierarchyLevels \<and>
     (node_parent (out ! i) = [] \<longleftrightarrow> lowerPopulated (rows ! k) level = []) \<and>
     (levelRank level = 1 \<longrightarrow> node_parent (out ! i) = []) \<and>
     (node_parent (out ! i) \<noteq> [] \<longrightarrow> (\<exists>j<i. node_id (out ! j) = node_parent (out ! i)))"
proof -
  from created_origin [OF assms(1,2)]
  obtain k and s0 s1 :: state where k: "k < length rows"
    "processExcelToTreeJSON ent (take k rows) = Inr (outputNodes s0)"
    "processExcelToTreeJSON ent (take (Suc k) rows) = Inr (outputNodes s1)"
    "length (outputNodes s0) \<le> i" "i < length (outputNodes s1)"
    "origin (levelVisits ent (rows ! k) hierarchyLevels (s0, None)) (rows ! k) out i"
    by blast
  let ?W = "levelVisits ent (rows ! k) hierarchyLevels (s0, None)"
  from k(6) obtain level where l: "level \<in> set hierarchyLevels" "nodeLevel (out ! i) = Some level"
    "parentRel ?W (rows ! k) out i (lowerPopulated (rows ! k) level)"
    by (auto simp: origin_def)
  let ?ls = "lowerPopulated (rows ! k) level"
  from l(3) have a: "node_parent (out ! i) = [] \<longleftrightarrow> ?ls = []"
    by (auto simp: parentRel_def split: if_splits)
  have b: "levelRank level = 1 \<longrightarrow> node_parent (out ! i) = []"
    using a levelRank_one [of level "rows ! k"] by simp
  from l(3) have c: "node_parent (out ! i) \<noteq> [] \<longrightarrow> (\<exists>j<i. node_id (out ! j) = node_parent (out ! i))"
    by (auto simp: parentRel_def split: if_splits)
  from k(1-5) l(1,2) a b c show ?thesis by blast
qed

theorem parent_empty_iff_no_lower_level_witness:
  "\<exists>k<length [orphanRow]. \<exists>out0 out1 level.
     processExcelToTreeJSON countingEntropy (take k [orphanRow]) = Inr out0 \<and>
     processExcelToTreeJSON countingEntropy (take (Suc k) [orphanRow]) = Inr out1 \<and>
     length out0 \<le> 0 \<and> 0 < length out1 \<and>
     nodeLevel (orphanOutput ! 0) = Some level \<and> level \<in> set hierarchyLevels \<and>
     (node_parent (orphanOutput ! 0) = [] \<longleftrightarrow> lowerPopulated ([orphanRow] ! k) level = []) \<and>
     (levelRank level = 1 \<longrightarrow> node_parent (orphanOutput ! 0) = []) \<and>
     (node_parent (orphanOutput ! 0) \<noteq> [] \<longrightarrow>
        (\<exists>j<0. node_id (orphanOutput ! j) = node_parent (orphanOutput ! 0)))"
proof -
  have "0 < length orphanOutput"
    by (simp add: orphanOutput_def)
  from parent_empty_iff_no_lower_level [OF orphan_build this] show ?thesis .
qed

section \<open>One node for each key, in creation order\<close>

lemma set_firstSeen: "set (firstSeen seen xs) = set seen \<union> set xs"
  by (induction xs arbitrary: seen) auto

lemma distinct_firstSeen: "distinct seen \<Longrightarrow> distinct (firstSeen seen xs)"
  by (induction xs arbitrary: seen) auto

lemma rowA_cells:
  "rowA (str ''L1 - Line of Business'') = Str (str ''A'')"
  "rowA (str ''L2 - Process Group'') = Undefined"
  "rowA (str ''L3 - Scope Item'') = Undefined"
  "rowA (str ''L4 - Process Variant'') = Undefined"
  "rowA (str ''L5 - Process Step'') = Undefined"
  by (simp_all add: rowA_def rowOf_def str_def)

lemma rowA_example:
  "\<exists>a. processExcelToTreeJSON ent [rowA, rowA] = Inr [a] \<and>
     title a = str ''A'' \<and> nodeLevel a = Some (str ''L1 - Line of Business'') \<and> node_parent a = []"
proof -
  define L1 where "L1 = str ''L1 - Line of Business''"
  define key1 where "key1 = compositeKey L1 (str ''A'') None"
  define st1 where "st1 = createNode ent rowA L1 (str ''A'') None key1 initialState"
  define nA where "nA = newNode (generateObjectId ent 0) (str ''A'') None L1 rowA"
  have lev: "L1 \<in> set hierarchyLevels"
    by (simp add: hierarchyLevels_def L1_def)
  have ne: "str ''A'' \<noteq> []"
    by (simp add: str_def)
  have absent: "processLevel ent rowA (str ''L2 - Process Group'') sp = Inr sp"
    "processLevel ent rowA (str ''L3 - Scope Item'') sp = Inr sp"
    "processLevel ent rowA (str ''L4 - Process Variant'') sp = Inr sp"
    "processLevel ent rowA (str ''L5 - Process Step'') sp = Inr sp" for sp
    using processLevel_absent [of rowA "str ''L2 - Process Group''" ent sp]
      processLevel_absent [of rowA "str ''L3 - Scope Item''" ent sp]
      processLevel_absent [of rowA "str ''L4 - Process Variant''" ent sp]
      processLevel_absent [of rowA "str ''L5 - Process Step''" ent sp]
    by (simp_all add: absentOrEmpty_def rowA_cells)
  have s1: "processLevel ent rowA L1 (initialState, None) = Inr (st1, Some (generateObjectId ent 0))"
    unfolding L1_def
    by (simp add: processLevel_populated [of rowA _ "str ''A''"] rowA_cells trim_A ne Let_def
        initialState_def st1_def key1_def L1_def)
  have "idMap st1 key1 = Some (generateObjectId ent 0)"
    by (simp add: st1_def initialState_def)
  then have s2: "processLevel ent rowA L1 (st1, None) = Inr (st1, Some (generateObjectId ent 0))"
    unfolding L1_def
    by (simp add: processLevel_populated [of rowA _ "str ''A''"] rowA_cells trim_A ne Let_def
        key1_def L1_def)
  have run: "processExcelToTreeJSON ent [rowA, rowA] = Inr (outputNodes st1)"
    using s1 s2
    by (simp add: processExcelToTreeJSON_def processRow_def hierarchyLevels_def
        absent L1_def [symmetric])
  have out1: "outputNodes st1 = [nA]"
    by (simp add: st1_def outputNodes_createNode initialState_def linkChild_def truthyId_def nA_def)
  have "title nA = str ''A''" "node_parent nA = []" "nodeLevel nA = Some L1"
    using lev ne by (simp_all add: nA_def nodeLevel_newNode truthyId_def)
  with run out1 show ?thesis by (simp add: L1_def)
qed

text \<open>
  The composite key under which a node is stored is the text \<open>level:value\<close>, or
  \<open>level:value:parentId\<close> below a parent. When the generated ids are pairwise distinct
  and no level value of the input ends in a colon followed by a generated id, the nodes of
  the output have pairwise distinct deduplication keys \<open>(level, trimmed title, parent id
  or none)\<close>, these keys are exactly the keys met during the scan, every populated level of
  every row resolves to the node with its key, and two of them resolve to the same node
  exactly when their keys are the same. The rows \<open>[{L1: "A"}, {L1: "A"}]\<close> give exactly one
  node, whatever ids are generated.
\<close>

lemma one_node_per_key_without_collision:
  "(processExcelToTreeJSON ent rows = Inr out \<and> distinct (map node_id out) \<and>
    titlesAvoidIds rows out \<longrightarrow>
      distinct (map nodeKey out) \<and>
      set (map nodeKey out) = fst ` set (visits ent rows initialState) \<and>
      (\<forall>v\<in>set (visits ent rows initialState).
         \<exists>n\<in>set out. nodeKey n = fst v \<and> snd v = Some (node_id n)) \<and>
      (\<forall>v\<in>set (visits ent rows initialState). \<forall>w\<in>set (visits ent rows initialState).
         snd v = snd w \<longleftrightarrow> fst v = fst w)) \<and>
   (\<exists>a. processExcelToTreeJSON ent [rowA, rowA] = Inr [a] \<and>
      title a = str ''A'' \<and> nodeLevel a = Some (str ''L1 - Line of Business'') \<and>
      node_parent a = [])"
proof (intro conjI impI)
  let ?V = "visits ent rows initialState"
  assume h: "processExcelToTreeJSON ent rows = Inr out \<and> distinct (map node_id out) \<and>
    titlesAvoidIds rows out"
  then have b: "processExcelToTreeJSON ent rows = Inr out" and d: "distinct (map node_id out)"
    and t: "titlesAvoidIds rows out"
    by simp_all
  note v = build_visits [OF b t]
  show dk: "distinct (map nodeKey out)"
    unfolding v(1) by (simp add: distinct_firstSeen)
  show "set (map nodeKey out) = fst ` set ?V"
    unfolding v(1) by (simp add: set_firstSeen)
  have res: "\<exists>n\<in>set out. nodeKey n = fst x \<and> snd x = Some (node_id n)" if "x \<in> set ?V" for x
  proof -
    from that v(2) have "x \<in> set (map (\<lambda>n. (nodeKey n, Some (node_id n))) out)" by blast
    then show ?thesis by auto
  qed
  then show "\<forall>v\<in>set ?V. \<exists>n\<in>set out. nodeKey n = fst v \<and> snd v = Some (node_id n)"
    by blast
  have ik: "inj_on nodeKey (set out)" using dk by (simp add: distinct_map)
  have ii: "inj_on node_id (set out)" using d by (simp add: distinct_map)
  show "\<forall>v\<in>set ?V. \<forall>w\<in>set ?V. snd v = snd w \<longleftrightarrow> fst v = fst w"
  proof (intro ballI)
    fix x y assume "x \<in> set ?V" "y \<in> set ?V"
    with res obtain n m where n: "n \<in> set out" "nodeKey n = fst x" "snd x = Some (node_id n)"
      and m: "m \<in> set out" "nodeKey m = fst y" "snd y = Some (node_id m)"
      by blast
    have "snd x = snd y \<longleftrightarrow> n = m"
      using inj_on_eq_iff [OF ii n(1) m(1)] n(3) m(3) by simp
    moreover have "fst x = fst y \<longleftrightarrow> n = m"
      using inj_on_eq_iff [OF ik n(1) m(1)] n(2) m(2) by simp
    ultimately show "snd x = snd y \<longleftrightarrow> fst x = fst y" by simp
  qed
next
  show "\<exists>a. processExcelToTreeJSON ent [rowA, rowA] = Inr [a] \<and>
      title a = str ''A'' \<and> nodeLevel a = Some (str ''L1 - Line of Business'') \<and>
      node_parent a = []"
    by (rule rowA_example)
qed

lemma rowA_gap_build: "processExcelToTreeJSON countingEntropy [rowA, gapRow] = Inr gapOutput"
  by code_simp

lemma suffix_length_le: "suffix xs ys \<Longrightarrow> length xs \<le> length ys"
  by (auto simp: suffix_def)

lemma short_avoidsIds:
  assumes "\<forall>q\<in>I. length t \<le> length q"
  shows "avoidsIds I t"
  using assms by (auto simp: avoidsIds_def dest!: suffix_length_le)

lemma rowA_gap_avoid: "titlesAvoidIds [rowA, gapRow] gapOutput"
proof -
  have i: "node_id ` set gapOutput = set (map node_id gapOutput)" by simp
  have "avoidsIds (node_id ` set gapOutput) (str ''A'')" "avoidsIds (node_id ` set gapOutput) (str ''Z'')"
    unfolding i gapOutput_ids by (rule short_avoidsIds, simp add: str_def)+
  then show ?thesis
    by (simp add: titlesAvoidIds_def hierarchyLevels_def cellAvoidsIds_def rowA_cells gapRow_cells trim_A)
qed

lemma one_node_per_key_without_collision_example:
  "processExcelToTreeJSON countingEntropy [rowA, gapRow] = Inr gapOutput \<and>
   distinct (map node_id gapOutput) \<and> titlesAvoidIds [rowA, gapRow] gapOutput \<and>
   distinct (map nodeKey gapOutput) \<and>
   set (map nodeKey gapOutput) = fst ` set (visits countingEntropy [rowA, gapRow] initialState)"
  using one_node_per_key_without_collision [of countingEntropy "[rowA, gapRow]" gapOutput]
    rowA_gap_build distinct_gapOutput_ids rowA_gap_avoid
  by blast

text \<open>
  Without that hypothesis two different keys can be the same text: the key of a value
  below a parent and the key of a longer value without parent.
\<close>

lemma compositeKey_collision:
  assumes "q \<noteq> []"
  shows "compositeKey level (v @ colon # q) None = compositeKey level v (Some q)"
  using assms by (simp add: compositeKey_def truthyId_def)

lemma coll_build: "processExcelToTreeJSON countingEntropy collRows = Inr collOutput"
  by code_simp

lemma coll_visits: "visits countingEntropy collRows initialState = collVisits"
  by code_simp

lemma collVisits_facts:
  "distinct (map fst collVisits)" "length collVisits = 4"
  "fst (collVisits ! 1) \<noteq> fst (collVisits ! 2)" "snd (collVisits ! 1) = snd (collVisits ! 2)"
  "keyText (fst (collVisits ! 1)) = keyText (fst (collVisits ! 2))"
  by code_simp+

lemma collOutput_facts:
  "distinct (map node_id collOutput)" "length collOutput = 3"
  "snd (collVisits ! 2) = Some (node_id (collOutput ! 1))"
  "node_parent (collOutput ! 2) = node_id (collOutput ! 1)"
  by code_simp+

text \<open>
  C1, as stated, fails in the code. For the rows
  \<open>[{L1: "P", L2: "A"}, {L2: "A:000102030405060708090a0b", L3: "C"}]\<close>, when the first
  generated id is \<open>000102030405060708090a0b\<close>, the scan meets four distinct deduplication
  keys and the output has three nodes with pairwise distinct ids: the second and the third
  key (the value "A" below the node "P", and the value "A:000102030405060708090a0b" with
  no parent) are different keys with the same key text, and both resolve to the node "A",
  under which "C" is then hung.
\<close>

theorem key_collision_merges_keys:
  "processExcelToTreeJSON countingEntropy collRows = Inr collOutput \<and>
   visits countingEntropy collRows initialState = collVisits \<and>
   length collVisits = 4 \<and> distinct (map fst collVisits) \<and>
   length collOutput = 3 \<and> distinct (map node_id collOutput) \<and>
   fst (collVisits ! 1) \<noteq> fst (collVisits ! 2) \<and>
   keyText (fst (collVisits ! 1)) = keyText (fst (collVisits ! 2)) \<and>
   snd (collVisits ! 1) = snd (collVisits ! 2) \<and>
   snd (collVisits ! 2) = Some (node_id (collOutput ! 1)) \<and>
   node_parent (collOutput ! 2) = node_id (collOutput ! 1)"
  using coll_build coll_visits collVisits_facts collOutput_facts by blast

subsection \<open>Creation order\<close>

lemma firstSeenBy_append:
  "firstSeenBy f seen (xs @ ys) = firstSeenBy f (firstSeenBy f seen xs) ys"
  by (induction xs arbitrary: seen) simp_all

lemma map_firstSeenBy:
  "map f (firstSeenBy f seen xs) = firstSeen (map f seen) (map f xs)"
  by (induction xs arbitrary: seen) simp_all

lemma subseq_firstSeenBy:
  "subseq S T \<Longrightarrow> \<forall>y\<in>set T. f y \<in> f ` set S \<Longrightarrow>
   subseq (firstSeenBy f S xs) (firstSeen T xs)"
proof (induction xs arbitrary: S T)
  case Nil
  then show ?case by simp
next
  case (Cons x xs)
  show ?case
  proof (cases "f x \<in> f ` set S")
    case True
    show ?thesis
    proof (cases "x \<in> set T")
      case t: True
      with True Cons.IH [OF Cons.prems] show ?thesis by simp
    next
      case False
      have "subseq (S @ []) (T @ [x])"
        using Cons.prems(1) by (rule list_emb_append_mono) simp
      then have "subseq S (T @ [x])" by simp
      moreover have "\<forall>y\<in>set (T @ [x]). f y \<in> f ` set S" using Cons.prems(2) True by simp
      ultimately have "subseq (firstSeenBy f S xs) (firstSeen (T @ [x]) xs)" by (rule Cons.IH)
      with True False show ?thesis by simp
    qed
  next
    case False
    with Cons.prems(2) have n: "x \<notin> set T" by auto
    have "subseq (S @ [x]) (T @ [x])"
      using Cons.prems(1) by (rule list_emb_append_mono) simp
    moreover have "\<forall>y\<in>set (T @ [x]). f y \<in> f ` set (S @ [x])" using Cons.prems(2) by auto
    ultimately have "subseq (firstSeenBy f (S @ [x]) xs) (firstSeen (T @ [x]) xs)" by (rule Cons.IH)
    with False n show ?thesis by simp
  qed
qed

lemma keyText_nodeKey:
  assumes "wfNode n"
  shows "keyText (nodeKey n) = keyOf n"
proof -
  from assms obtain l where "nodeLevel n = Some l" by (auto simp: wfNode_def)
  then show ?thesis by (simp add: keyText_def keyOf_def nodeKey_def)
qed

lemma inv_keyTexts:
  assumes "inv ent st"
  shows "keyText ` set (map nodeKey (outputNodes st)) = dom (idMap st)"
proof -
  have w: "\<And>n. n \<in> set (outputNodes st) \<Longrightarrow> keyText (nodeKey n) = keyOf n"
    using assms by (intro keyText_nodeKey) (simp add: inv_def)
  from assms have "idMap st = map_of (map (\<lambda>n. (keyOf n, node_id n)) (outputNodes st))"
    by (simp add: inv_def invKeys_def)
  then have "dom (idMap st) = keyOf ` set (outputNodes st)"
    by (simp add: dom_map_of_conv_image_fst image_image)
  also have "\<dots> = (\<lambda>n. keyText (nodeKey n)) ` set (outputNodes st)"
    using w by (intro image_cong) simp_all
  finally show ?thesis by (simp add: image_image)
qed

lemma processLevel_firstSeenBy:
  assumes "processLevel ent row level (st, prev) = Inr (st', prev')"
    "inv ent st" "prevOK st prev" "level \<in> set hierarchyLevels"
  shows "map nodeKey (outputNodes st') =
      firstSeenBy keyText (map nodeKey (outputNodes st))
        (map fst (levelVisits ent row [level] (st, prev)))"
  using assms(1)
proof (cases rule: processLevel_Inr_cases)
  case skip
  with levelVisits_single_skip [OF assms(1) skip(3)] show ?thesis by simp
next
  case (found s nid)
  have v: "levelVisits ent row [level] (st, prev) = [((level, trim s, prev), prev')]"
    using levelVisits_single_populated [OF assms(1) found(1,2)] by (simp only: snd_conv)
  from found(3) have "compositeKey level (trim s) prev \<in> dom (idMap st)" by blast
  then have "keyText (level, trim s, prev) \<in> keyText ` set (map nodeKey (outputNodes st))"
    unfolding inv_keyTexts [OF assms(2)] by (simp add: keyText_def)
  then show ?thesis unfolding v found(4) by simp
next
  case (created s)
  let ?nid = "generateObjectId ent (generated st)"
  let ?nd = "newNode ?nid (trim s) prev level row"
  have v: "levelVisits ent row [level] (st, prev) = [((level, trim s, prev), prev')]"
    using levelVisits_single_populated [OF assms(1) created(1,2)] by (simp only: snd_conv)
  have nk: "nodeKey ?nd = (level, trim s, prev)"
    by (simp add: nodeKey_newNode [OF assms(4) created(2)] prev_normal [OF assms(2,3)])
  have m1: "map nodeKey (outputNodes st') = map nodeKey (outputNodes st) @ [(level, trim s, prev)]"
    unfolding created(4) by (simp add: map_createNode [where f = nodeKey] nodeKey_sameButChild nk)
  from created(3) have "compositeKey level (trim s) prev \<notin> dom (idMap st)" by blast
  then have "keyText (level, trim s, prev) \<notin> keyText ` set (map nodeKey (outputNodes st))"
    unfolding inv_keyTexts [OF assms(2)] by (simp add: keyText_def)
  then show ?thesis unfolding v m1 by simp
qed

lemma processLevels_firstSeenBy:
  "processLevels ent row levels (st, prev) = Inr (st', prev') \<Longrightarrow> inv ent st \<Longrightarrow> prevOK st prev \<Longrightarrow>
   set levels \<subseteq> set hierarchyLevels \<Longrightarrow>
   map nodeKey (outputNodes st') =
      firstSeenBy keyText (map nodeKey (outputNodes st))
        (map fst (levelVisits ent row levels (st, prev)))"
proof (induction levels arbitrary: st prev)
  case Nil
  then show ?case by simp
next
  case (Cons level levels)
  from Cons.prems(1) obtain st1 prev1 where 1: "processLevel ent row level (st, prev) = Inr (st1, prev1)"
    and 2: "processLevels ent row levels (st1, prev1) = Inr (st', prev')"
    by (auto split: sum.splits)
  from Cons.prems(4) have l: "level \<in> set hierarchyLevels" "set levels \<subseteq> set hierarchyLevels"
    by simp_all
  from processLevel_inv [OF 1 Cons.prems(2,3) l(1)] have i1: "inv ent st1" "prevOK st1 prev1" by simp_all
  note a = processLevel_firstSeenBy [OF 1 Cons.prems(2,3) l(1)]
  note a' = Cons.IH [OF 2 i1 l(2)]
  have v: "levelVisits ent row (level # levels) (st, prev) =
      levelVisits ent row [level] (st, prev) @ levelVisits ent row levels (st1, prev1)"
    using 1 by (rule levelVisits_Cons)
  show ?case unfolding v a' a by (simp only: map_append firstSeenBy_append)
qed

lemma processRows_firstSeenBy:
  "processRows ent rows st = Inr st' \<Longrightarrow> inv ent st \<Longrightarrow>
   map nodeKey (outputNodes st') =
      firstSeenBy keyText (map nodeKey (outputNodes st)) (map fst (visits ent rows st))"
proof (induction rows arbitrary: st)
  case Nil
  then show ?case by simp
next
  case (Cons row rows)
  from Cons.prems(1) obtain st1 where 1: "processRow ent row st = Inr st1"
    and 2: "processRows ent rows st1 = Inr st'"
    by (auto split: sum.splits)
  from 1 obtain prev1 where p: "processLevels ent row hierarchyLevels (st, None) = Inr (st1, prev1)"
    by (auto simp: processRow_Inr)
  have i1: "inv ent st1" using 1 Cons.prems(2) by (rule processRow_inv)
  note a = processLevels_firstSeenBy [OF p Cons.prems(2) prevOK_None subset_refl]
  note a' = Cons.IH [OF 2 i1]
  have v: "visits ent (row # rows) st = levelVisits ent row hierarchyLevels (st, None) @ visits ent rows st1"
    using 1 by simp
  show ?case unfolding v a' a by (simp only: map_append firstSeenBy_append)
qed

text \<open>
  C5: the output lists the nodes in the order in which they are created, which is the
  order in which their keys are first seen by the scan (rows from first to last, levels
  from lowest to highest rank), whatever ids are generated. The keys of the nodes, in
  output order, are the keys met by the scan at the visits where the key text is new,
  which are the visits where the program creates a node; they are a subsequence of the
  keys of the scan listed each at its first occurrence; and the key texts of the nodes, in
  output order, are the key texts of the scan listed each at its first occurrence.
\<close>

theorem output_in_creation_order:
  assumes "processExcelToTreeJSON ent rows = Inr out"
  shows "map nodeKey out = firstSeenBy keyText [] (map fst (visits ent rows initialState)) \<and>
    subseq (map nodeKey out) (firstSeen [] (map fst (visits ent rows initialState))) \<and>
    map keyOf out = firstSeen [] (map (\<lambda>v. keyText (fst v)) (visits ent rows initialState))"
proof -
  let ?V = "visits ent rows initialState"
  from assms obtain st where st: "processRows ent rows initialState = Inr st" "outputNodes st = out"
    by (auto simp: build_Inr)
  have i: "inv ent st" by (rule processRows_inv [OF st(1) inv_initialState])
  from processRows_firstSeenBy [OF st(1) inv_initialState] st(2)
  have a: "map nodeKey out = firstSeenBy keyText [] (map fst ?V)"
    by (simp add: initialState_def)
  have b: "subseq (map nodeKey out) (firstSeen [] (map fst ?V))"
    unfolding a by (rule subseq_firstSeenBy) simp_all
  have "map keyOf out = map keyText (map nodeKey out)"
    using i st(2) by (auto simp: inv_def keyText_nodeKey)
  also have "\<dots> = firstSeen [] (map keyText (map fst ?V))"
    unfolding a by (simp add: map_firstSeenBy)
  finally have c: "map keyOf out = firstSeen [] (map (\<lambda>v. keyText (fst v)) ?V)"
    by (simp add: comp_def)
  from a b c show ?thesis by blast
qed

theorem output_in_creation_order_witness:
  "processExcelToTreeJSON countingEntropy collRows = Inr collOutput \<and>
   map nodeKey collOutput = firstSeenBy keyText [] (map fst collVisits) \<and>
   subseq (map nodeKey collOutput) (firstSeen [] (map fst collVisits)) \<and>
   map keyOf collOutput = firstSeen [] (map (\<lambda>v. keyText (fst v)) collVisits)"
  using output_in_creation_order [OF coll_build] coll_build unfolding coll_visits by blast

section \<open>The build with positions in place of ids\<close>

lemma nth_indexOf: "x \<in> set xs \<Longrightarrow> xs ! indexOf x xs = x"
  unfolding indexOf_def by (induction xs) auto

lemma indexOf_less: "x \<in> set xs \<Longrightarrow> indexOf x xs < length xs"
  unfolding indexOf_def by (induction xs) auto

lemma indexOf_inj:
  assumes "x \<in> set xs" "y \<in> set xs" "indexOf x xs = indexOf y xs"
  shows "x = y"
proof -
  have "x = xs ! indexOf x xs" using assms(1) by (rule nth_indexOf [symmetric])
  also have "\<dots> = xs ! indexOf y xs" by (simp only: assms(3))
  also have "\<dots> = y" using assms(2) by (rule nth_indexOf)
  finally show ?thesis .
qed

lemma indexOf_append: "x \<in> set xs \<Longrightarrow> indexOf x (xs @ ys) = indexOf x xs"
  unfolding indexOf_def by (induction xs) auto

lemma indexOf_fresh: "x \<notin> set xs \<Longrightarrow> indexOf x (xs @ [x]) = length xs"
  unfolding indexOf_def by (induction xs) auto

lemma indexOf_first:
  assumes "i < length xs" "xs ! i = x" "\<forall>j<length xs. xs ! j = x \<longrightarrow> j = i"
  shows "indexOf x xs = i"
proof -
  from assms(1,2) have m: "x \<in> set xs" by auto
  from indexOf_less [OF m] nth_indexOf [OF m] assms(3) show ?thesis by blast
qed

lemma indexOf_nth_distinct:
  assumes "distinct xs" "i < length xs"
  shows "indexOf (xs ! i) xs = i"
  using assms by (intro indexOf_first) (auto simp: nth_eq_iff_index_eq)

lemma map_option_indexOf_inj:
  assumes "\<forall>x. p = Some x \<longrightarrow> x \<in> set xs" "\<forall>x. q = Some x \<longrightarrow> x \<in> set xs"
  shows "map_option (\<lambda>x. indexOf x xs) p = map_option (\<lambda>x. indexOf x xs) q \<longleftrightarrow> p = q"
proof (cases p)
  case None
  then show ?thesis by (cases q) auto
next
  case (Some x)
  show ?thesis
  proof (cases q)
    case None
    with Some show ?thesis by simp
  next
    case q: (Some y)
    from Some q assms have "x \<in> set xs" "y \<in> set xs" by simp_all
    from indexOf_inj [OF this] Some q show ?thesis by auto
  qed
qed

lemma inv_parentOf_in_ids:
  assumes "inv ent st" "n \<in> set (outputNodes st)"
  shows "\<forall>x. parentOf n = Some x \<longrightarrow> x \<in> set (map node_id (outputNodes st))"
  using inv_parent_in_ids [OF assms] by (auto simp: parentOf_def)

lemma prevOK_in_ids:
  assumes "prevOK st prev"
  shows "\<forall>x. prev = Some x \<longrightarrow> x \<in> set (map node_id (outputNodes st))"
  using assms by (auto simp: prevOK_def)

lemma absKey_iff:
  assumes "inv ent st" "n \<in> set (outputNodes st)" "prevOK st prev"
  shows "fst (absNode (outputNodes st) n) = (Some level, v, absPrev (outputNodes st) prev) \<longleftrightarrow>
    nodeKey n = (level, v, prev)"
proof -
  from assms(1,2) have "wfNode n" by (simp add: inv_def)
  then obtain l where l: "nodeLevel n = Some l" by (auto simp: wfNode_def)
  have "map_option (\<lambda>x. indexOf x (map node_id (outputNodes st))) (parentOf n) =
      map_option (\<lambda>x. indexOf x (map node_id (outputNodes st))) prev \<longleftrightarrow> parentOf n = prev"
    using inv_parentOf_in_ids [OF assms(1,2)] prevOK_in_ids [OF assms(3)]
    by (rule map_option_indexOf_inj)
  then show ?thesis
    by (simp add: absNode_def absPrev_def nodeKey_def l)
qed

lemma inv_distinct_nodeKey_nth:
  assumes "inv ent st" "i < length (outputNodes st)" "j < length (outputNodes st)"
    "nodeKey (outputNodes st ! i) = nodeKey (outputNodes st ! j)"
  shows "i = j"
proof -
  have k: "keyOf n = (case nodeKey n of (l, t, p) \<Rightarrow> compositeKey l t p)"
    if "n \<in> set (outputNodes st)" for n
  proof -
    from assms(1) that have "wfNode n" by (simp add: inv_def)
    then obtain l where "nodeLevel n = Some l" by (auto simp: wfNode_def)
    then show ?thesis by (simp add: keyOf_def nodeKey_def)
  qed
  from assms(2,3) have "outputNodes st ! i \<in> set (outputNodes st)" "outputNodes st ! j \<in> set (outputNodes st)"
    by simp_all
  with k assms(4) have "keyOf (outputNodes st ! i) = keyOf (outputNodes st ! j)" by simp
  then have e: "map keyOf (outputNodes st) ! i = map keyOf (outputNodes st) ! j"
    using assms(2,3) by simp
  from assms(1) have d: "distinct (map keyOf (outputNodes st))" by (simp add: inv_def invKeys_def)
  have "i < length (map keyOf (outputNodes st))" "j < length (map keyOf (outputNodes st))"
    using assms(2,3) by simp_all
  from nth_eq_iff_index_eq [OF d this] e show ?thesis by blast
qed

lemma absNode_extend:
  assumes "sameButChild n n'" "map node_id out' = map node_id out @ extra"
    "\<forall>x. parentOf n = Some x \<longrightarrow> x \<in> set (map node_id out)"
  shows "absNode out' n' = absNode out n"
proof -
  have "map_option (\<lambda>p. indexOf p (map node_id out')) (parentOf n) =
      map_option (\<lambda>p. indexOf p (map node_id out)) (parentOf n)"
    using assms(3) unfolding assms(2) by (cases "parentOf n") (simp_all add: indexOf_append)
  then show ?thesis
    by (simp add: absNode_def nodeLevel_sameButChild [OF assms(1)] sameButChild_fields [OF assms(1)]
        sameButChild_stable [OF assms(1)])
qed


lemma levelFields_newNode:
  "levelFields (newNode nid v p l r) = map (\<lambda>x. (x, if x = l then v else [])) hierarchyLevels"
  by (simp add: newNode_def)

lemma absLevel_skip:
  assumes "\<not> populated (row level)"
  shows "absLevel row level (ns, ap) = (ns, ap)"
  using assms by (auto simp: absLevel_def populated_def split: jsval.splits)

lemma absLevel_populated:
  assumes "row level = Str s" "trim s \<noteq> []"
  shows "absLevel row level (ns, ap) =
    (if (Some level, trim s, ap) \<in> set (map fst ns)
     then (ns, Some (indexOf (Some level, trim s, ap) (map fst ns)))
     else (ns @ [((Some level, trim s, ap),
                  map (\<lambda>l. (l, if l = level then trim s else [])) hierarchyLevels,
                  rowMetadata row)],
           Some (length ns)))"
  using assms by (simp add: absLevel_def Let_def)

lemma processLevel_abs:
  assumes "processLevel ent row level (st, prev) = Inr (st', prev')"
    "inv ent st" "prevOK st prev" "level \<in> set hierarchyLevels"
    "node_id ` set (outputNodes st') \<subseteq> I" "\<forall>n\<in>set (outputNodes st). avoidsIds I (title n)"
    "cellAvoidsIds I (row level)" "distinct (map node_id (outputNodes st'))"
  shows "(map (absNode (outputNodes st')) (outputNodes st'), absPrev (outputNodes st') prev') =
    absLevel row level (map (absNode (outputNodes st)) (outputNodes st), absPrev (outputNodes st) prev)"
  using assms(1)
proof (cases rule: processLevel_Inr_cases)
  case skip
  then show ?thesis by (simp add: absLevel_skip)
next
  case (found s nid)
  let ?out = "outputNodes st"
  let ?A = "map (absNode ?out) ?out"
  let ?k = "(Some level, trim s, absPrev ?out prev)"
  from assms(7) found(1) have av: "avoidsIds I (trim s)" by (simp add: cellAvoidsIds_def)
  from assms(5) found(4) have sub: "node_id ` set ?out \<subseteq> I" by simp
  from found_key [OF assms(2,3,4) sub assms(6) av found(3)]
  obtain n where n: "n \<in> set ?out" "node_id n = nid" "nodeKey n = (level, trim s, prev)"
    by blast
  then obtain j where j: "j < length ?out" "?out ! j = n" by (auto simp: in_set_conv_nth)
  have kj: "fst (absNode ?out n) = ?k"
    using n(3) by (simp only: absKey_iff [OF assms(2) n(1) assms(3)])
  then have mem: "?k \<in> set (map fst ?A)"
    using n(1) by force
  have d: "distinct (map node_id ?out)" using assms(8) found(4) by simp
  have i1: "indexOf nid (map node_id ?out) = j"
    using indexOf_nth_distinct [OF d, of j] j n(2) by simp
  have i2: "indexOf ?k (map fst ?A) = j"
  proof (rule indexOf_first)
    show "j < length (map fst ?A)" using j(1) by simp
    show "map fst ?A ! j = ?k" using j kj by simp
    show "\<forall>i<length (map fst ?A). map fst ?A ! i = ?k \<longrightarrow> i = j"
    proof (intro allI impI)
      fix i assume i: "i < length (map fst ?A)" and e: "map fst ?A ! i = ?k"
      from i have il: "i < length ?out" by simp
      then have m: "?out ! i \<in> set ?out" by simp
      from e il have "fst (absNode ?out (?out ! i)) = ?k" by simp
      then have "nodeKey (?out ! i) = (level, trim s, prev)"
        by (simp only: absKey_iff [OF assms(2) m assms(3)])
      with n(3) j(2) have "nodeKey (?out ! i) = nodeKey (?out ! j)" by simp
      from inv_distinct_nodeKey_nth [OF assms(2) il j(1) this] show "i = j" .
    qed
  qed
  have "absLevel row level (?A, absPrev ?out prev) = (?A, Some j)"
    using mem by (simp only: absLevel_populated [of row level s, OF found(1,2)] i2 if_True)
  moreover have "absPrev ?out prev' = Some j"
    unfolding found(5) by (simp add: absPrev_def i1)
  ultimately show ?thesis unfolding found(4) by simp
next
  case (created s)
  let ?out = "outputNodes st" and ?out' = "outputNodes st'"
  let ?A = "map (absNode ?out) ?out"
  let ?k = "(Some level, trim s, absPrev ?out prev)"
  let ?nid = "generateObjectId ent (generated st)"
  let ?nd = "newNode ?nid (trim s) prev level row"
  let ?lf = "map (\<lambda>l. (l, if l = level then trim s else [])) hierarchyLevels"
  have len: "length ?out' = Suc (length ?out)" unfolding created(4) by simp
  have g: "grows ?out ?out'" unfolding created(4) by (rule grows_createNode)
  have same: "sameButChild ?nd (?out' ! length ?out)"
    unfolding created(4) by (rule created_createNode)
  have ids': "map node_id ?out' = map node_id ?out @ [?nid]"
    unfolding created(4) by (simp add: map_createNode [where f = node_id] sameButChild_fields)
  from assms(8) have fresh: "?nid \<notin> set (map node_id ?out)"
    unfolding ids' by simp
  have notmem: "?k \<notin> set (map fst ?A)"
  proof
    assume "?k \<in> set (map fst ?A)"
    then obtain n where n: "n \<in> set ?out" "fst (absNode ?out n) = ?k" by auto
    from n(2) have "nodeKey n = (level, trim s, prev)"
      by (simp only: absKey_iff [OF assms(2) n(1) assms(3)])
    with n(1) have "(level, trim s, prev) \<in> set (map nodeKey ?out)" by force
    with fresh_key [OF assms(2) created(3)] show False by simp
  qed
  have old: "absNode ?out' (?out' ! i) = absNode ?out (?out ! i)" if "i < length ?out" for i
  proof -
    from that have "?out ! i \<in> set ?out" by simp
    from absNode_extend [OF grows_nth [OF g that] ids' inv_parentOf_in_ids [OF assms(2) this]]
    show ?thesis .
  qed
  have pn: "parentOf ?nd = prev"
    by (simp add: parentOf_newNode prev_normal [OF assms(2,3)])
  have new: "absNode ?out' (?out' ! length ?out) = (?k, ?lf, rowMetadata row)"
  proof -
    have "\<forall>x. parentOf ?nd = Some x \<longrightarrow> x \<in> set (map node_id ?out)"
      using prevOK_in_ids [OF assms(3)] by (simp only: pn)
    with same ids' have "absNode ?out' (?out' ! length ?out) = absNode ?out ?nd"
      by (rule absNode_extend)
    also have "\<dots> = (?k, ?lf, rowMetadata row)"
      by (simp add: absNode_def nodeLevel_newNode [OF assms(4) created(2)] pn absPrev_def
          levelFields_newNode)
    finally show ?thesis .
  qed
  have "map (absNode ?out') ?out' = ?A @ [(?k, ?lf, rowMetadata row)]"
  proof (rule nth_equalityI)
    show "length (map (absNode ?out') ?out') = length (?A @ [(?k, ?lf, rowMetadata row)])"
      using len by simp
    fix i assume "i < length (map (absNode ?out') ?out')"
    then have i: "i < Suc (length ?out)" using len by simp
    show "map (absNode ?out') ?out' ! i = (?A @ [(?k, ?lf, rowMetadata row)]) ! i"
    proof (cases "i < length ?out")
      case True
      with i len old [OF True] show ?thesis by (simp add: nth_append)
    next
      case False
      with i have "i = length ?out" by simp
      with len new show ?thesis by (simp add: nth_append)
    qed
  qed
  moreover have "absPrev ?out' prev' = Some (length ?A)"
    unfolding created(5) using fresh by (simp add: absPrev_def ids' indexOf_fresh)
  moreover have "absLevel row level (?A, absPrev ?out prev) =
      (?A @ [(?k, ?lf, rowMetadata row)], Some (length ?A))"
    using notmem by (simp only: absLevel_populated [of row level s, OF created(1,2)] if_False)
  ultimately show ?thesis by simp
qed


lemma processLevels_abs:
  "processLevels ent row levels (st, prev) = Inr (st', prev') \<Longrightarrow> inv ent st \<Longrightarrow> prevOK st prev \<Longrightarrow>
   set levels \<subseteq> set hierarchyLevels \<Longrightarrow> node_id ` set (outputNodes st') \<subseteq> I \<Longrightarrow>
   \<forall>n\<in>set (outputNodes st). avoidsIds I (title n) \<Longrightarrow>
   \<forall>level\<in>set levels. cellAvoidsIds I (row level) \<Longrightarrow>
   distinct (map node_id (outputNodes st')) \<Longrightarrow>
   (map (absNode (outputNodes st')) (outputNodes st'), absPrev (outputNodes st') prev') =
     absLevels row levels (map (absNode (outputNodes st)) (outputNodes st), absPrev (outputNodes st) prev)"
proof (induction levels arbitrary: st prev)
  case Nil
  then show ?case by simp
next
  case (Cons level levels)
  from Cons.prems(1) obtain st1 prev1 where 1: "processLevel ent row level (st, prev) = Inr (st1, prev1)"
    and 2: "processLevels ent row levels (st1, prev1) = Inr (st', prev')"
    by (auto split: sum.splits)
  from Cons.prems(4,7) have l: "level \<in> set hierarchyLevels" "set levels \<subseteq> set hierarchyLevels"
    "cellAvoidsIds I (row level)" "\<forall>level\<in>set levels. cellAvoidsIds I (row level)"
    by simp_all
  from processLevel_inv [OF 1 Cons.prems(2,3) l(1)] have i1: "inv ent st1" "prevOK st1 prev1" by simp_all
  have g: "grows (outputNodes st1) (outputNodes st')" using 2 by (rule processLevels_grows)
  from grows_ids_subset [OF g] Cons.prems(5) have sub1: "node_id ` set (outputNodes st1) \<subseteq> I" by simp
  from grows_distinct_ids [OF g Cons.prems(8)] have d1: "distinct (map node_id (outputNodes st1))" .
  from processLevel_visit [OF 1 Cons.prems(2,3) l(1) sub1 Cons.prems(6) l(3)]
  have t1: "\<forall>n\<in>set (outputNodes st1). avoidsIds I (title n)" by simp
  from processLevel_abs [OF 1 Cons.prems(2,3) l(1) sub1 Cons.prems(6) l(3) d1]
  have a: "(map (absNode (outputNodes st1)) (outputNodes st1), absPrev (outputNodes st1) prev1) =
      absLevel row level (map (absNode (outputNodes st)) (outputNodes st), absPrev (outputNodes st) prev)" .
  from Cons.IH [OF 2 i1 l(2) Cons.prems(5) t1 l(4) Cons.prems(8)]
  show ?case by (simp only: absLevels.simps a [symmetric])
qed

lemma processRows_abs:
  "processRows ent rows st = Inr st' \<Longrightarrow> inv ent st \<Longrightarrow>
   node_id ` set (outputNodes st') \<subseteq> I \<Longrightarrow>
   \<forall>n\<in>set (outputNodes st). avoidsIds I (title n) \<Longrightarrow>
   \<forall>row\<in>set rows. \<forall>level\<in>set hierarchyLevels. cellAvoidsIds I (row level) \<Longrightarrow>
   distinct (map node_id (outputNodes st')) \<Longrightarrow>
   map (absNode (outputNodes st')) (outputNodes st') =
     absRows rows (map (absNode (outputNodes st)) (outputNodes st))"
proof (induction rows arbitrary: st)
  case Nil
  then show ?case by simp
next
  case (Cons row rows)
  from Cons.prems(1) obtain st1 where 1: "processRow ent row st = Inr st1"
    and 2: "processRows ent rows st1 = Inr st'"
    by (auto split: sum.splits)
  from 1 obtain prev1 where p: "processLevels ent row hierarchyLevels (st, None) = Inr (st1, prev1)"
    by (auto simp: processRow_Inr)
  have i1: "inv ent st1" using 1 Cons.prems(2) by (rule processRow_inv)
  have g: "grows (outputNodes st1) (outputNodes st')" using 2 by (rule processRows_grows)
  from grows_ids_subset [OF g] Cons.prems(3) have sub1: "node_id ` set (outputNodes st1) \<subseteq> I" by simp
  from grows_distinct_ids [OF g Cons.prems(6)] have d1: "distinct (map node_id (outputNodes st1))" .
  from Cons.prems(5) have c: "\<forall>level\<in>set hierarchyLevels. cellAvoidsIds I (row level)"
    "\<forall>row\<in>set rows. \<forall>level\<in>set hierarchyLevels. cellAvoidsIds I (row level)"
    by simp_all
  from processLevels_visit [OF p Cons.prems(2) prevOK_None subset_refl sub1 Cons.prems(4) c(1)]
  have t1: "\<forall>n\<in>set (outputNodes st1). avoidsIds I (title n)" by simp
  from processLevels_abs [OF p Cons.prems(2) prevOK_None subset_refl sub1 Cons.prems(4) c(1) d1]
  have "(map (absNode (outputNodes st1)) (outputNodes st1), absPrev (outputNodes st1) prev1) =
      absLevels row hierarchyLevels (map (absNode (outputNodes st)) (outputNodes st), None)"
    by (simp add: absPrev_def)
  then have a: "fst (absLevels row hierarchyLevels (map (absNode (outputNodes st)) (outputNodes st), None)) =
      map (absNode (outputNodes st1)) (outputNodes st1)"
    by (metis fst_conv)
  from Cons.IH [OF 2 i1 Cons.prems(3) t1 c(2) Cons.prems(6)]
  show ?case by (simp only: absRows.simps a)
qed

lemma build_abs:
  assumes "processExcelToTreeJSON ent rows = Inr out" "distinct (map node_id out)"
    "titlesAvoidIds rows out"
  shows "map (absNode out) out = absRows rows []"
proof -
  from assms(1) obtain st where st: "processRows ent rows initialState = Inr st" "outputNodes st = out"
    by (auto simp: build_Inr)
  have c: "\<forall>row\<in>set rows. \<forall>level\<in>set hierarchyLevels. cellAvoidsIds (node_id ` set out) (row level)"
    using assms(3) by (simp add: titlesAvoidIds_def)
  have "map (absNode (outputNodes st)) (outputNodes st) =
      absRows rows (map (absNode (outputNodes initialState)) (outputNodes initialState))"
    using st(1) inv_initialState
  proof (rule processRows_abs)
    show "node_id ` set (outputNodes st) \<subseteq> node_id ` set out" using st(2) by simp
    show "\<forall>n\<in>set (outputNodes initialState). avoidsIds (node_id ` set out) (title n)"
      by (simp add: initialState_def)
    show "\<forall>row\<in>set rows. \<forall>level\<in>set hierarchyLevels. cellAvoidsIds (node_id ` set out) (row level)"
      by (rule c)
    show "distinct (map node_id (outputNodes st))" using assms(2) st(2) by simp
  qed
  then show ?thesis using st(2) by (simp add: initialState_def)
qed


lemma map_filter_index:
  "map h (filter P xs) = map (\<lambda>j. h (xs ! j)) (filter (\<lambda>j. P (xs ! j)) [0 ..< length xs])"
proof (induction xs rule: rev_induct)
  case Nil
  then show ?case by simp
next
  case (snoc x xs)
  have "map (\<lambda>j. h ((xs @ [x]) ! j)) (filter (\<lambda>j. P ((xs @ [x]) ! j)) [0 ..< length xs]) =
      map (\<lambda>j. h (xs ! j)) (filter (\<lambda>j. P (xs ! j)) [0 ..< length xs])"
    by (intro map_cong filter_cong) (auto simp: nth_append)
  with snoc show ?case by simp
qed

lemma renaming_nth:
  assumes "distinct (map node_id out1)" "i < length out1"
  shows "renaming out1 out2 (node_id (out1 ! i)) = map node_id out2 ! i"
proof -
  have "indexOf (map node_id out1 ! i) (map node_id out1) = i"
    using assms by (intro indexOf_nth_distinct) simp_all
  with assms(2) show ?thesis by (simp add: renaming_def)
qed

lemma abs_parent:
  assumes "map (absNode out1) out1 = map (absNode out2) out2"
    "\<forall>n\<in>set out1. node_parent n \<noteq> [] \<longrightarrow> node_parent n \<in> set (map node_id out1)"
    "\<forall>n\<in>set out2. node_parent n \<noteq> [] \<longrightarrow> node_parent n \<in> set (map node_id out2)"
    "i < length out1"
  shows "node_parent (out2 ! i) =
    (if node_parent (out1 ! i) = [] then [] else renaming out1 out2 (node_parent (out1 ! i)))"
proof -
  from assms(1) have len: "length out1 = length out2" by (rule map_eq_imp_length_eq)
  from assms(1) have "map (absNode out1) out1 ! i = map (absNode out2) out2 ! i" by simp
  with assms(4) len have "absNode out1 (out1 ! i) = absNode out2 (out2 ! i)" by simp
  then have e: "map_option (\<lambda>p. indexOf p (map node_id out1)) (parentOf (out1 ! i)) =
      map_option (\<lambda>p. indexOf p (map node_id out2)) (parentOf (out2 ! i))"
    by (simp add: absNode_def)
  show ?thesis
  proof (cases "node_parent (out1 ! i) = []")
    case True
    with e show ?thesis by (simp add: parentOf_def split: if_splits)
  next
    case False
    with e have ne: "node_parent (out2 ! i) \<noteq> []"
      and ix: "indexOf (node_parent (out1 ! i)) (map node_id out1) =
        indexOf (node_parent (out2 ! i)) (map node_id out2)"
      by (simp_all add: parentOf_def split: if_splits)
    from assms(4) len have "out2 ! i \<in> set out2" by simp
    with assms(3) ne have "node_parent (out2 ! i) \<in> set (map node_id out2)" by blast
    from nth_indexOf [OF this] ix False show ?thesis by (simp add: renaming_def)
  qed
qed

lemma abs_equal_renaming:
  assumes e: "map (absNode out1) out1 = map (absNode out2) out2"
    and d1: "distinct (map node_id out1)" and d2: "distinct (map node_id out2)"
    and c1: "\<forall>i<length out1. node_child (out1 ! i) = childrenOf (node_id (out1 ! i)) out1"
    and c2: "\<forall>i<length out2. node_child (out2 ! i) = childrenOf (node_id (out2 ! i)) out2"
    and p1: "\<forall>n\<in>set out1. node_parent n \<noteq> [] \<longrightarrow> node_parent n \<in> set (map node_id out1)"
    and p2: "\<forall>n\<in>set out2. node_parent n \<noteq> [] \<longrightarrow> node_parent n \<in> set (map node_id out2)"
    and ne1: "\<forall>n\<in>set out1. node_id n \<noteq> []" and ne2: "\<forall>n\<in>set out2. node_id n \<noteq> []"
  shows "out2 = map (renameNode (renaming out1 out2)) out1"
    "inj_on (renaming out1 out2) (node_id ` set out1)"
proof -
  let ?f = "renaming out1 out2"
  from e have len: "length out1 = length out2" by (rule map_eq_imp_length_eq)
  have fid: "?f (node_id (out1 ! i)) = node_id (out2 ! i)" if "i < length out1" for i
    using renaming_nth [OF d1 that, of out2] that len by simp
  have par: "node_parent (out2 ! i) =
      (if node_parent (out1 ! i) = [] then [] else ?f (node_parent (out1 ! i)))"
    if "i < length out1" for i
    using e p1 p2 that by (rule abs_parent)
  have par': "node_parent (out1 ! i) =
      (if node_parent (out2 ! i) = [] then [] else renaming out2 out1 (node_parent (out2 ! i)))"
    if "i < length out1" for i
    using abs_parent [OF e [symmetric] p2 p1, of i] that len by simp
  have gid: "renaming out2 out1 (node_id (out2 ! i)) = node_id (out1 ! i)" if "i < length out1" for i
    using renaming_nth [OF d2, of i out1] that len by simp
  have rel: "node_parent (out1 ! j) = node_id (out1 ! k) \<longleftrightarrow> node_parent (out2 ! j) = node_id (out2 ! k)"
    if j: "j < length out1" and k: "k < length out1" for j k
  proof
    assume a: "node_parent (out1 ! j) = node_id (out1 ! k)"
    from k ne1 have "node_id (out1 ! k) \<noteq> []" by simp
    with a par [OF j] fid [OF k] show "node_parent (out2 ! j) = node_id (out2 ! k)" by simp
  next
    assume a: "node_parent (out2 ! j) = node_id (out2 ! k)"
    from k len ne2 have "node_id (out2 ! k) \<noteq> []" by simp
    with a par' [OF j] gid [OF k] show "node_parent (out1 ! j) = node_id (out1 ! k)" by simp
  qed
  have child: "node_child (out2 ! k) = map ?f (node_child (out1 ! k))" if k: "k < length out1" for k
  proof -
    have "map ?f (node_child (out1 ! k)) =
        map ?f (map (\<lambda>j. node_id (out1 ! j))
          (filter (\<lambda>j. node_parent (out1 ! j) = node_id (out1 ! k)) [0 ..< length out1]))"
      using c1 k by (simp add: childrenOf_def map_filter_index [of node_id])
    also have "\<dots> = map (\<lambda>j. node_id (out2 ! j))
          (filter (\<lambda>j. node_parent (out1 ! j) = node_id (out1 ! k)) [0 ..< length out1])"
      unfolding map_map by (rule map_cong) (simp_all add: fid)
    also have "\<dots> = map (\<lambda>j. node_id (out2 ! j))
          (filter (\<lambda>j. node_parent (out2 ! j) = node_id (out2 ! k)) [0 ..< length out2])"
      unfolding len [symmetric]
      by (rule arg_cong [where f = "map _"], rule filter_cong) (simp_all add: rel [OF _ k])
    also have "\<dots> = node_child (out2 ! k)"
      using c2 k len by (simp add: childrenOf_def map_filter_index [of node_id])
    finally show ?thesis by simp
  qed
  show "out2 = map (renameNode ?f) out1"
  proof (rule nth_equalityI)
    show "length out2 = length (map (renameNode ?f) out1)" using len by simp
    fix i assume "i < length out2"
    with len have i: "i < length out1" by simp
    from e have "map (absNode out1) out1 ! i = map (absNode out2) out2 ! i" by simp
    with i len have a: "absNode out1 (out1 ! i) = absNode out2 (out2 ! i)" by simp
    then have t: "title (out2 ! i) = title (out1 ! i)" "levelFields (out2 ! i) = levelFields (out1 ! i)"
      "metadata (out2 ! i) = metadata (out1 ! i)"
      by (simp_all add: absNode_def)
    have "out2 ! i = renameNode ?f (out1 ! i)"
      using fid [OF i] par [OF i] child [OF i] t
      by (intro node.equality) (simp_all add: renameNode_def metadata_def)
    with i show "out2 ! i = map (renameNode ?f) out1 ! i" by simp
  qed
  show "inj_on ?f (node_id ` set out1)"
  proof (rule inj_onI)
    fix x y assume "x \<in> node_id ` set out1" "y \<in> node_id ` set out1" and eq: "?f x = ?f y"
    then obtain i j where i: "i < length out1" "x = node_id (out1 ! i)"
      and j: "j < length out1" "y = node_id (out1 ! j)"
      by (auto simp: in_set_conv_nth)
    from eq fid [OF i(1)] fid [OF j(1)] i(2) j(2) have "node_id (out2 ! i) = node_id (out2 ! j)" by simp
    then have "map node_id out2 ! i = map node_id out2 ! j" using i(1) j(1) len by simp
    moreover have "i < length (map node_id out2)" "j < length (map node_id out2)"
      using i(1) j(1) len by simp_all
    ultimately have "i = j" using nth_eq_iff_index_eq [OF d2] by blast
    with i(2) j(2) show "x = y" by simp
  qed
qed

section \<open>Determinism up to the generated ids\<close>

lemma isl_processLevel: "isl (processLevel ent row level sp) = throws (row level)"
  by (cases sp) (auto simp: processLevel_def throws_def Let_def split: jsval.splits)

lemma isl_processLevels:
  "isl (processLevels ent row levels sp) = (\<exists>level\<in>set levels. throws (row level))"
proof (induction levels arbitrary: sp)
  case Nil
  then show ?case by simp
next
  case (Cons level levels)
  show ?case
  proof (cases "processLevel ent row level sp")
    case (Inl e)
    with isl_processLevel [of ent row level sp] show ?thesis by simp
  next
    case (Inr sp')
    with isl_processLevel [of ent row level sp] Cons.IH [of sp'] show ?thesis by simp
  qed
qed

lemma isl_processRow:
  "isl (processRow ent row st) = (\<exists>level\<in>set hierarchyLevels. throws (row level))"
  using isl_processLevels [of ent row hierarchyLevels "(st, None)"]
  by (auto simp: processRow_def split: sum.splits)

lemma isl_processRows:
  "isl (processRows ent rows st) = (\<exists>row\<in>set rows. \<exists>level\<in>set hierarchyLevels. throws (row level))"
proof (induction rows arbitrary: st)
  case Nil
  then show ?case by simp
next
  case (Cons row rows)
  show ?case
  proof (cases "processRow ent row st")
    case (Inl e)
    with isl_processRow [of ent row st] show ?thesis by simp
  next
    case (Inr st')
    with isl_processRow [of ent row st] Cons.IH [of st'] show ?thesis by simp
  qed
qed

lemma isl_build:
  "isl (processExcelToTreeJSON ent rows) =
     (\<exists>row\<in>set rows. \<exists>level\<in>set hierarchyLevels. throws (row level))"
  using isl_processRows [of ent rows initialState]
  by (auto simp: processExcelToTreeJSON_def split: sum.splits)

lemma build_facts:
  assumes "processExcelToTreeJSON ent rows = Inr out"
  shows "\<forall>n\<in>set out. node_parent n \<noteq> [] \<longrightarrow> node_parent n \<in> set (map node_id out)"
    "\<forall>n\<in>set out. node_id n \<noteq> []"
proof -
  from assms obtain st where st: "outputNodes st = out" "inv ent st" by (rule build_inv)
  show "\<forall>n\<in>set out. node_parent n \<noteq> [] \<longrightarrow> node_parent n \<in> set (map node_id out)"
    using inv_parent_in_ids [OF st(2)] st(1) by blast
  show "\<forall>n\<in>set out. node_id n \<noteq> []"
  proof
    fix n assume "n \<in> set out"
    with st(1) have "node_id n \<in> node_id ` set (outputNodes st)" by simp
    from inv_id_length [OF st(2) this] show "node_id n \<noteq> []" by auto
  qed
qed

text \<open>
  Two builds over the same rows fail together or return together, whatever ids are
  generated; and when in both the generated ids are pairwise distinct and no level value
  of the input ends in a colon followed by a generated id, the second output is the first
  one with its ids renamed, in \<open>_id\<close>, \<open>_parent\<close> and \<open>_child\<close>, by a renaming that is
  injective on the ids of the first output: order, titles, level fields, parent and child
  links and metadata are the same.
\<close>

lemma build_deterministic_without_collision:
  "isl (processExcelToTreeJSON ent1 rows) = isl (processExcelToTreeJSON ent2 rows) \<and>
   (processExcelToTreeJSON ent1 rows = Inr out1 \<and> processExcelToTreeJSON ent2 rows = Inr out2 \<and>
    distinct (map node_id out1) \<and> distinct (map node_id out2) \<and>
    titlesAvoidIds rows out1 \<and> titlesAvoidIds rows out2 \<longrightarrow>
      out2 = map (renameNode (renaming out1 out2)) out1 \<and>
      inj_on (renaming out1 out2) (node_id ` set out1))"
proof (intro conjI impI)
  show "isl (processExcelToTreeJSON ent1 rows) = isl (processExcelToTreeJSON ent2 rows)"
    by (simp only: isl_build)
next
  assume h: "processExcelToTreeJSON ent1 rows = Inr out1 \<and> processExcelToTreeJSON ent2 rows = Inr out2 \<and>
    distinct (map node_id out1) \<and> distinct (map node_id out2) \<and>
    titlesAvoidIds rows out1 \<and> titlesAvoidIds rows out2"
  then have b1: "processExcelToTreeJSON ent1 rows = Inr out1"
    and b2: "processExcelToTreeJSON ent2 rows = Inr out2"
    and d1: "distinct (map node_id out1)" and d2: "distinct (map node_id out2)"
    and t1: "titlesAvoidIds rows out1" and t2: "titlesAvoidIds rows out2"
    by simp_all
  have e: "map (absNode out1) out1 = map (absNode out2) out2"
    by (simp only: build_abs [OF b1 d1 t1] build_abs [OF b2 d2 t2])
  note r = abs_equal_renaming [OF e d1 d2 build_children [OF b1 d1] build_children [OF b2 d2]
      build_facts(1) [OF b1] build_facts(1) [OF b2] build_facts(2) [OF b1] build_facts(2) [OF b2]]
  show "out2 = map (renameNode (renaming out1 out2)) out1" by (rule r(1))
  show "inj_on (renaming out1 out2) (node_id ` set out1)" by (rule r(2))
qed

lemma gap_build2: "processExcelToTreeJSON descendingEntropy [gapRow] = Inr gapOutput2"
  by code_simp

lemma gapOutput2_ids:
  "map node_id gapOutput2 = [str ''fffefdfcfbfaf9f8f7f6f5f4'', str ''f3f2f1f0efeeedecebeae9e8'']"
  by (simp add: gapOutput2_def plainNode_def)

lemma distinct_gapOutput2_ids: "distinct (map node_id gapOutput2)"
  unfolding gapOutput2_ids by (simp add: str_def)

lemma gap_avoid: "titlesAvoidIds [gapRow] gapOutput" "titlesAvoidIds [gapRow] gapOutput2"
proof -
  have i: "node_id ` set gapOutput = set (map node_id gapOutput)"
    "node_id ` set gapOutput2 = set (map node_id gapOutput2)" by simp_all
  have "avoidsIds (node_id ` set gapOutput) (str ''A'')" "avoidsIds (node_id ` set gapOutput) (str ''Z'')"
    "avoidsIds (node_id ` set gapOutput2) (str ''A'')" "avoidsIds (node_id ` set gapOutput2) (str ''Z'')"
    unfolding i gapOutput_ids gapOutput2_ids by (rule short_avoidsIds, simp add: str_def)+
  then show "titlesAvoidIds [gapRow] gapOutput" "titlesAvoidIds [gapRow] gapOutput2"
    by (simp_all add: titlesAvoidIds_def hierarchyLevels_def cellAvoidsIds_def gapRow_cells trim_A)
qed

lemma build_deterministic_without_collision_example:
  "processExcelToTreeJSON countingEntropy [gapRow] = Inr gapOutput \<and>
   processExcelToTreeJSON descendingEntropy [gapRow] = Inr gapOutput2 \<and>
   distinct (map node_id gapOutput) \<and> distinct (map node_id gapOutput2) \<and>
   titlesAvoidIds [gapRow] gapOutput \<and> titlesAvoidIds [gapRow] gapOutput2 \<and>
   gapOutput2 = map (renameNode (renaming gapOutput gapOutput2)) gapOutput \<and>
   inj_on (renaming gapOutput gapOutput2) (node_id ` set gapOutput)"
  using build_deterministic_without_collision [of countingEntropy "[gapRow]" descendingEntropy gapOutput gapOutput2]
    gap_build gap_build2 distinct_gapOutput_ids distinct_gapOutput2_ids gap_avoid
  by blast

lemma coll_build2: "processExcelToTreeJSON descendingEntropy collRows = Inr collOutput2"
  by code_simp

lemma collOutput2_facts:
  "distinct (map node_id collOutput2)" "length collOutput2 = 4"
  by code_simp+

text \<open>
  C8, as stated, fails in the code. For the rows
  \<open>[{L1: "P", L2: "A"}, {L2: "A:000102030405060708090a0b", L3: "C"}]\<close> the build that
  generates the ids \<open>000102030405060708090a0b\<close>, \<open>0c0d0e0f1011121314151617\<close>, ... returns
  three nodes, and the build that generates \<open>fffefdfcfbfaf9f8f7f6f5f4\<close>,
  \<open>f3f2f1f0efeeedecebeae9e8\<close>, ... returns four nodes; the ids are pairwise distinct in
  both, and no renaming of ids turns one output into the other.
\<close>

theorem key_collision_breaks_determinism:
  "processExcelToTreeJSON countingEntropy collRows = Inr collOutput \<and>
   processExcelToTreeJSON descendingEntropy collRows = Inr collOutput2 \<and>
   distinct (map node_id collOutput) \<and> distinct (map node_id collOutput2) \<and>
   length collOutput = 3 \<and> length collOutput2 = 4 \<and>
   (\<forall>f. collOutput2 \<noteq> map (renameNode f) collOutput)"
proof -
  have "collOutput2 \<noteq> map (renameNode f) collOutput" for f
  proof
    assume "collOutput2 = map (renameNode f) collOutput"
    then have "length collOutput2 = length (map (renameNode f) collOutput)" by (rule arg_cong)
    then show False by (simp add: collOutput_facts(2) collOutput2_facts(2))
  qed
  with coll_build coll_build2 collOutput_facts(1,2) collOutput2_facts show ?thesis by blast
qed

end
